theory Spec2Isabelle
  imports Main "HOL-Library.Char_ord" "HOL-Library.List_Lexorder" "HOL-Library.Multiset"
begin

section \<open>Touch-controlled media viewer: the catalog\<close>

text \<open>
  Python strings are modelled as \<open>string\<close> (byte strings). Comparison of Python strings
  is by code point, which for UTF-8 encoded names is the lexicographic order on bytes
  provided by \<open>Char_ord\<close> and \<open>List_Lexorder\<close>. \<open>str.lower\<close> is modelled on the ASCII
  letters; every other byte is left as it is.
\<close>

definition MEDIA_DIR :: string where
  "MEDIA_DIR = ''/home/calen/projects/rpi-touch-app/media/''"

definition IMG_EXTS :: "string set" where
  "IMG_EXTS = {''.jpg'', ''.jpeg'', ''.png'', ''.bmp'', ''.gif''}"

definition VID_EXTS :: "string set" where
  "VID_EXTS = {''.mp4'', ''.mov'', ''.mkv'', ''.avi''}"

definition lower_char :: "char \<Rightarrow> char" where
  "lower_char c =
     (let n = (of_char c :: nat) in if 65 \<le> n \<and> n \<le> 90 then char_of (n + 32) else c)"

definition lower :: "string \<Rightarrow> string" where
  "lower s = map lower_char s"

text \<open>\<open>str.rfind\<close> for a single character: the last index holding \<open>c\<close>, or \<open>-1\<close>.\<close>

primrec rfind_aux :: "char \<Rightarrow> string \<Rightarrow> int \<Rightarrow> int \<Rightarrow> int" where
  "rfind_aux c [] i r = r"
| "rfind_aux c (x # xs) i r = rfind_aux c xs (i + 1) (if x = c then i else r)"

definition rfind :: "char \<Rightarrow> string \<Rightarrow> int" where
  "rfind c p = rfind_aux c p 0 (- 1)"

text \<open>
  The second component of \<open>os.path.splitext\<close> (POSIX): the text from the last dot of the
  last path component on, unless that component has nothing but dots before it.
\<close>

definition splitext_ext :: "string \<Rightarrow> string" where
  "splitext_ext p =
     (let sepIndex = rfind (CHR ''/'') p;
          dotIndex = rfind (CHR ''.'') p
      in if dotIndex > sepIndex \<and>
            list_ex (\<lambda>ch. ch \<noteq> CHR ''.'')
              (take (nat (dotIndex - (sepIndex + 1))) (drop (nat (sepIndex + 1)) p))
         then drop (nat dotIndex) p
         else [])"

text \<open>\<open>os.path.join\<close> (POSIX) of two components.\<close>

definition path_join :: "string \<Rightarrow> string \<Rightarrow> string" where
  "path_join a b =
     (if b \<noteq> [] \<and> hd b = CHR ''/'' then b
      else if a = [] \<or> last a = CHR ''/'' then a @ b
      else a @ ''/'' @ b)"

text \<open>
  \<open>load_media_list\<close>; its argument is what \<open>os.listdir(MEDIA_DIR)\<close> returned, in the
  arbitrary order of the operating system.
\<close>

definition ext_of :: "string \<Rightarrow> string" where
  "ext_of p = lower (splitext_ext p)"

definition supported :: "string \<Rightarrow> bool" where
  "supported f \<longleftrightarrow> ext_of f \<in> IMG_EXTS \<union> VID_EXTS"

definition load_media_list :: "string list \<Rightarrow> string list" where
  "load_media_list listing = map (path_join MEDIA_DIR) (filter supported (sort listing))"

section \<open>The playback state machine\<close>

text \<open>
  The program's variables (\<open>idx\<close>, \<open>current_proc\<close>, \<open>last_was_video\<close>, \<open>last_show_ms\<close>,
  \<open>screen\<close>, \<open>running\<close>) together with the millisecond clock read by
  \<open>pygame.time.get_ticks\<close> and the sequence of effects performed so far: the debug lines
  (without their time stamps), the drawing operations and the operations on the player
  process. A process handle records the command line it was started with and the time
  of the \<open>Popen\<close> call; \<open>screen\<close> counts the surfaces created by \<open>reset_display\<close>.

  The clock is moved by the statements that wait: \<open>pygame.time.wait\<close> in \<open>blackout\<close>, the
  wait for a terminated player, and \<open>clock.tick(30)\<close> at the end of a tick. Every other
  statement is taken to need no time.
\<close>

datatype event = QUIT | KEYDOWN int | FINGERDOWN | MOUSEBUTTONDOWN | OTHER_EVENT

definition K_ESCAPE :: int where
  "K_ESCAPE = 27"

record popen =
  args :: "string list"
  started :: int

datatype action =
    ShowCalled nat
  | Terminate popen
  | Blackout nat
  | ResetDisplay
  | DrawImage string
  | ErrorFrame string
  | Launch "string list"
  | NoPlayer
  | FillBlack
  | EventSeen event
  | PressIgnored
  | EvdevIgnored
  | FrameTick

datatype error = TimeoutExpired | IndexError | SystemExit int

record world =
  idx :: nat
  current_proc :: "popen option"
  last_was_video :: bool
  last_show_ms :: int
  screen :: nat
  running :: bool
  clock :: int
  trace :: "action list"

text \<open>
  What the program cannot decide by itself: the catalog loaded at startup, which player
  binaries \<open>shutil.which\<close> resolves, whether an image file decodes, whether a process has
  exited when polled at a given time, and how many milliseconds a process takes to exit
  after \<open>terminate()\<close> (\<open>None\<close>: it does not exit). A tick is given the events that
  \<open>pygame.event.get()\<close> returns, the number of tokens taken from \<open>touch_queue\<close> before it is
  found empty, and the time spent in \<open>clock.tick(30)\<close>.
\<close>

record env =
  media :: "string list"
  which :: "string \<Rightarrow> bool"
  image_ok :: "string \<Rightarrow> bool"
  exited :: "popen \<Rightarrow> int \<Rightarrow> bool"
  exit_delay :: "popen \<Rightarrow> int \<Rightarrow> nat option"

record tick_input =
  events :: "event list"
  touches :: nat
  frame_ms :: nat

definition MIN_VIEW_MS :: int where
  "MIN_VIEW_MS = 1000"

definition emit :: "action \<Rightarrow> world \<Rightarrow> world" where
  "emit a w = w\<lparr>trace := trace w @ [a]\<rparr>"

definition blackout :: "nat \<Rightarrow> world \<Rightarrow> world" where
  "blackout ms w = (emit (Blackout ms) w)\<lparr>clock := clock w + int ms\<rparr>"

definition reset_display :: "world \<Rightarrow> world" where
  "reset_display w = (emit ResetDisplay w)\<lparr>screen := Suc (screen w)\<rparr>"

definition display_image :: "env \<Rightarrow> string \<Rightarrow> world \<Rightarrow> world" where
  "display_image E path w =
     (if image_ok E path then emit (DrawImage path) w else emit (ErrorFrame path) w)"

text \<open>
  \<open>play_video\<close>: the command line of the first player found, and the handle of the process
  started with it. Starting a player that \<open>shutil.which\<close> has just resolved is taken to
  succeed.
\<close>

definition player_cmd :: "env \<Rightarrow> string \<Rightarrow> string list option" where
  "player_cmd E path =
     (if which E ''omxplayer'' then
        Some [''omxplayer'', ''--no-osd'', ''--aspect-mode'', ''fill'', path]
      else if which E ''cvlc'' then
        Some [''cvlc'', ''--fullscreen'', ''--no-video-title-show'', ''--play-and-exit'', path]
      else if which E ''mpv'' then
        Some [''mpv'', ''--fs'', ''--quiet'', path]
      else None)"

definition play_video :: "env \<Rightarrow> string \<Rightarrow> world \<Rightarrow> popen option \<times> world" where
  "play_video E path w =
     (case player_cmd E path of
        None \<Rightarrow> (None, emit NoPlayer w)
      | Some cmd \<Rightarrow> (Some \<lparr>args = cmd, started = clock w\<rparr>, emit (Launch cmd) w))"

text \<open>
  Lines 182 to 188 of \<open>show\<close>: a handle that is still running is asked to terminate and
  waited for with a timeout of two seconds. \<open>Popen.wait(timeout=2)\<close> raises
  \<open>TimeoutExpired\<close> when the process has not exited by then; nothing catches it.
\<close>

definition stop_running :: "env \<Rightarrow> world \<Rightarrow> error + world" where
  "stop_running E w =
     (case current_proc w of
        None \<Rightarrow> Inr w
      | Some p \<Rightarrow>
          if exited E p (clock w) then Inr w
          else
            (case exit_delay E p (clock w) of
               None \<Rightarrow> Inl TimeoutExpired
             | Some d \<Rightarrow>
                 if d \<le> 2000 then
                   Inr ((emit (Terminate p) w)
                          \<lparr>clock := clock w + int d, current_proc := None,
                           last_was_video := True\<rparr>)
                 else Inl TimeoutExpired))"

definition show_image :: "env \<Rightarrow> string \<Rightarrow> world \<Rightarrow> world" where
  "show_image E path w =
     (display_image E path (if last_was_video w then reset_display (blackout 50 w) else w))
       \<lparr>last_was_video := False\<rparr>"

definition show_video :: "env \<Rightarrow> string \<Rightarrow> world \<Rightarrow> world" where
  "show_video E path w =
     (case play_video E path w of
        (None, w') \<Rightarrow> (emit FillBlack (blackout 50 w'))\<lparr>current_proc := None, last_was_video := True\<rparr>
      | (Some p, w') \<Rightarrow> w'\<lparr>current_proc := Some p, last_was_video := True\<rparr>)"

text \<open>The first statements of \<open>show\<close>: the debug line, then \<open>last_show_ms = get_ticks()\<close>.\<close>

definition enter_show :: "nat \<Rightarrow> world \<Rightarrow> world" where
  "enter_show i w = (emit (ShowCalled i) w)\<lparr>last_show_ms := clock w\<rparr>"

definition show_item :: "env \<Rightarrow> nat \<Rightarrow> world \<Rightarrow> error + world" where
  "show_item E i w =
     (let w1 = enter_show i w
      in if i < length (media E) then
           (let path = media E ! i;
                ext = ext_of path
            in case stop_running E w1 of
                 Inl e \<Rightarrow> Inl e
               | Inr w2 \<Rightarrow>
                   Inr (if ext \<in> IMG_EXTS then show_image E path w2 else show_video E path w2))
         else Inl IndexError)"

text \<open>\<open>idx = (idx + 1) % len(media); show(idx)\<close>\<close>

definition advance :: "env \<Rightarrow> world \<Rightarrow> error + world" where
  "advance E w =
     (let i = (idx w + 1) mod length (media E) in show_item E i (w\<lparr>idx := i\<rparr>))"

text \<open>
  The body shared by the handling of a press from the display layer (lines 220 to 224)
  and of a token from the touch queue (lines 236 to 240), which differ in the debug line
  of an ignored press only.
\<close>

definition on_press :: "env \<Rightarrow> action \<Rightarrow> world \<Rightarrow> error + world" where
  "on_press E ignored w =
     (if clock w - last_show_ms w \<ge> MIN_VIEW_MS then advance E w else Inr (emit ignored w))"

definition handle_event :: "env \<Rightarrow> event \<Rightarrow> world \<Rightarrow> error + world" where
  "handle_event E e w =
     (let w1 = emit (EventSeen e) w
      in case e of
           QUIT \<Rightarrow> Inr (w1\<lparr>running := False\<rparr>)
         | KEYDOWN k \<Rightarrow> Inr (if k = K_ESCAPE then w1\<lparr>running := False\<rparr> else w1)
         | FINGERDOWN \<Rightarrow> on_press E PressIgnored w1
         | MOUSEBUTTONDOWN \<Rightarrow> on_press E PressIgnored w1
         | OTHER_EVENT \<Rightarrow> Inr w1)"

fun handle_events :: "env \<Rightarrow> event list \<Rightarrow> world \<Rightarrow> error + world" where
  "handle_events E [] w = Inr w"
| "handle_events E (e # es) w =
     (case handle_event E e w of Inl x \<Rightarrow> Inl x | Inr w' \<Rightarrow> handle_events E es w')"

definition auto_advance :: "env \<Rightarrow> world \<Rightarrow> error + world" where
  "auto_advance E w =
     (case current_proc w of
        None \<Rightarrow> Inr w
      | Some p \<Rightarrow>
          if exited E p (clock w)
          then advance E (w\<lparr>current_proc := None, last_was_video := True\<rparr>)
          else Inr w)"

fun drain_touch_queue :: "env \<Rightarrow> nat \<Rightarrow> world \<Rightarrow> error + world" where
  "drain_touch_queue E 0 w = Inr w"
| "drain_touch_queue E (Suc n) w =
     (case on_press E EvdevIgnored w of Inl x \<Rightarrow> Inl x | Inr w' \<Rightarrow> drain_touch_queue E n w')"

definition frame_tick :: "nat \<Rightarrow> world \<Rightarrow> world" where
  "frame_tick ms w = (emit FrameTick w)\<lparr>clock := clock w + int ms\<rparr>"

text \<open>One pass through the body of \<open>while running\<close>.\<close>

definition tick :: "env \<Rightarrow> tick_input \<Rightarrow> world \<Rightarrow> error + world" where
  "tick E inp w =
     (case handle_events E (events inp) w of
        Inl x \<Rightarrow> Inl x
      | Inr w1 \<Rightarrow>
          (case auto_advance E w1 of
             Inl x \<Rightarrow> Inl x
           | Inr w2 \<Rightarrow>
               (case drain_touch_queue E (touches inp) w2 of
                  Inl x \<Rightarrow> Inl x
                | Inr w3 \<Rightarrow> Inr (frame_tick (frame_ms inp) w3))))"

text \<open>\<open>while running\<close>, for as many ticks as inputs are given.\<close>

fun main_loop :: "env \<Rightarrow> tick_input list \<Rightarrow> world \<Rightarrow> error + world" where
  "main_loop E [] w = Inr w"
| "main_loop E (inp # inps) w =
     (if running w then
        (case tick E inp w of Inl x \<Rightarrow> Inl x | Inr w' \<Rightarrow> main_loop E inps w')
      else Inr w)"

definition initial :: "int \<Rightarrow> world" where
  "initial t0 =
     \<lparr>idx = 0, current_proc = None, last_was_video = False, last_show_ms = t0,
      screen = 0, running = True, clock = t0, trace = []\<rparr>"

text \<open>\<open>main\<close> up to the first \<open>show(idx)\<close>, then the loop over the given ticks.\<close>

definition main_start :: "env \<Rightarrow> int \<Rightarrow> error + world" where
  "main_start E t0 = (if media E = [] then Inl (SystemExit 1) else show_item E 0 (initial t0))"

definition main_run :: "env \<Rightarrow> int \<Rightarrow> tick_input list \<Rightarrow> error + world" where
  "main_run E t0 inps =
     (case main_start E t0 of Inl x \<Rightarrow> Inl x | Inr w \<Rightarrow> main_loop E inps w)"

section \<open>Notions used in the statements\<close>

text \<open>
  No player is installed; a call of \<open>show\<close> in the trace, and the number of such calls;
  the effects that \<open>show\<close> and the functions it calls can have; a press among the events
  of the display layer.
\<close>

definition no_player :: "env \<Rightarrow> bool" where
  "no_player E \<longleftrightarrow> \<not> which E ''omxplayer'' \<and> \<not> which E ''cvlc'' \<and> \<not> which E ''mpv''"

fun is_show :: "action \<Rightarrow> bool" where
  "is_show (ShowCalled i) = True"
| "is_show a = False"

definition shows_in :: "action list \<Rightarrow> nat" where
  "shows_in tr = length (filter is_show tr)"

fun show_effect :: "action \<Rightarrow> bool" where
  "show_effect (EventSeen e) = False"
| "show_effect PressIgnored = False"
| "show_effect EvdevIgnored = False"
| "show_effect FrameTick = False"
| "show_effect a = True"

definition pointer_down :: "event \<Rightarrow> bool" where
  "pointer_down e \<longleftrightarrow> e = FINGERDOWN \<or> e = MOUSEBUTTONDOWN"

text \<open>A step inside \<open>show\<close>: it only appends rendering and process effects.\<close>

definition inner_step :: "world \<Rightarrow> world \<Rightarrow> bool" where
  "inner_step w w' \<longleftrightarrow>
     (\<exists>tr. trace w' = trace w @ tr \<and> list_all show_effect tr \<and> shows_in tr = 0) \<and>
     idx w' = idx w \<and> last_show_ms w' = last_show_ms w \<and> running w' = running w \<and>
     clock w \<le> clock w'"

text \<open>
  A step of the loop, for a catalog of \<open>N\<close> items: the effects are appended, the index
  moves by the number of calls of \<open>show\<close>, the clock does not go back, and without a call
  of \<open>show\<close> the playback variables stay as they were.
\<close>

definition run_step :: "nat \<Rightarrow> world \<Rightarrow> world \<Rightarrow> bool" where
  "run_step N w w' \<longleftrightarrow>
     (\<exists>tr. trace w' = trace w @ tr) \<and>
     (idx w < N \<longrightarrow>
        idx w' = (idx w + (shows_in (trace w') - shows_in (trace w))) mod N) \<and>
     clock w \<le> clock w' \<and>
     (shows_in (trace w') = shows_in (trace w) \<longrightarrow>
        idx w' = idx w \<and> last_show_ms w' = last_show_ms w \<and>
        current_proc w' = current_proc w \<and> last_was_video w' = last_was_video w \<and>
        screen w' = screen w)"

text \<open>The effects each part of a tick can have, and a tick without any press.\<close>

fun events_effect :: "action \<Rightarrow> bool" where
  "events_effect EvdevIgnored = False"
| "events_effect FrameTick = False"
| "events_effect a = True"

fun queue_effect :: "action \<Rightarrow> bool" where
  "queue_effect (EventSeen e) = False"
| "queue_effect PressIgnored = False"
| "queue_effect FrameTick = False"
| "queue_effect a = True"

definition quiet :: "tick_input \<Rightarrow> bool" where
  "quiet inp \<longleftrightarrow> touches inp = 0 \<and> \<not> list_ex pointer_down (events inp)"

text \<open>A step that emits the given kind of effects only.\<close>

definition emits :: "(action \<Rightarrow> bool) \<Rightarrow> nat \<Rightarrow> world \<Rightarrow> world \<Rightarrow> bool" where
  "emits P k w w' \<longleftrightarrow> (\<exists>tr. trace w' = trace w @ tr \<and> list_all P tr \<and> shows_in tr \<le> k)"

text \<open>A step that leaves the item on the screen alone: no rendering or process effect.\<close>

definition still :: "world \<Rightarrow> world \<Rightarrow> bool" where
  "still w w' \<longleftrightarrow>
     idx w' = idx w \<and> current_proc w' = current_proc w \<and>
     last_was_video w' = last_was_video w \<and> last_show_ms w' = last_show_ms w \<and>
     screen w' = screen w \<and> clock w \<le> clock w' \<and>
     (\<exists>tr. trace w' = trace w @ tr \<and> list_all (\<lambda>a. \<not> show_effect a) tr)"

text \<open>A result that is a world or the exception of the wait for a terminated player.\<close>

definition timeout_or_ok :: "error + world \<Rightarrow> bool" where
  "timeout_or_ok r = (case r of Inl e \<Rightarrow> e = TimeoutExpired | Inr w \<Rightarrow> True)"


section \<open>Concrete scenarios\<close>

text \<open>
  A catalog of one clip and two images, as \<open>load_media_list\<close> builds it, with \<open>mpv\<close> as
  the only player installed; the clip plays for three seconds, and a player asked to
  terminate exits after a second and a half.
\<close>

definition demo_media :: "string list" where
  "demo_media = load_media_list [''img2.png'', ''notes.txt'', ''clip1.mp4'', ''img1.png'']"

definition demo_env :: env where
  "demo_env =
     \<lparr>media = demo_media, which = (\<lambda>n. n = ''mpv''), image_ok = (\<lambda>p. True),
      exited = (\<lambda>p t. started p + 3000 \<le> t), exit_delay = (\<lambda>p t. Some 1500)\<rparr>"

definition idle :: tick_input where
  "idle = \<lparr>events = [], touches = 0, frame_ms = 33\<rparr>"

definition tap :: tick_input where
  "tap = \<lparr>events = [FINGERDOWN], touches = 0, frame_ms = 33\<rparr>"

definition clip1 :: popen where
  "clip1 = \<lparr>args = [''mpv'', ''--fs'', ''--quiet'', MEDIA_DIR @ ''clip1.mp4''], started = 0\<rparr>"

text \<open>The same, with no player installed; with a player that ignores the request to
  terminate; and with a clip that plays for less than a third of a second.\<close>

definition noplayer_env :: env where
  "noplayer_env = demo_env\<lparr>which := (\<lambda>n. False)\<rparr>"

definition stuck_env :: env where
  "stuck_env = demo_env\<lparr>exit_delay := (\<lambda>p t. None)\<rparr>"

definition short_env :: env where
  "short_env = demo_env\<lparr>exited := (\<lambda>p t. started p + 300 \<le> t)\<rparr>"

text \<open>The clip has been playing for 40 frames of 33 ms.\<close>

definition playing :: world where
  "playing =
     \<lparr>idx = 0, current_proc = Some clip1, last_was_video = True, last_show_ms = 0,
      screen = 0, running = True, clock = 1320,
      trace = [ShowCalled 0, Launch (args clip1)] @ replicate 40 FrameTick\<rparr>"

text \<open>The image that follows the clip, shown after the player was terminated.\<close>

definition after_tap :: world where
  "after_tap =
     playing\<lparr>idx := 1, current_proc := None, last_was_video := False, last_show_ms := 1320,
       screen := 1, clock := 2870,
       trace := trace playing @
         [ShowCalled 1, Terminate clip1, Blackout 50, ResetDisplay,
          DrawImage (MEDIA_DIR @ ''img1.png'')]\<rparr>"

text \<open>Right after the start of \<open>demo_env\<close> at time 0: the clip has just been launched.\<close>

definition started_clip :: world where
  "started_clip =
     \<lparr>idx = 0, current_proc = Some clip1, last_was_video = True, last_show_ms = 0,
      screen = 0, running = True, clock = 0,
      trace = [ShowCalled 0, Launch (args clip1)]\<rparr>"

text \<open>The short clip after ten frames: its player has exited, 330 ms after its start.\<close>

definition short_done :: world where
  "short_done = started_clip\<lparr>clock := 330, trace := trace started_clip @ replicate 10 FrameTick\<rparr>"

text \<open>The three-second clip after 91 frames: its player has exited during the last one.\<close>

definition clip_over :: world where
  "clip_over = started_clip\<lparr>clock := 3003, trace := trace started_clip @ replicate 91 FrameTick\<rparr>"

text \<open>The clip shown at the start with no player installed: the black fallback frame.\<close>

definition fallback :: world where
  "fallback =
     \<lparr>idx = 0, current_proc = None, last_was_video = True, last_show_ms = 0,
      screen = 0, running = True, clock = 50,
      trace = [ShowCalled 0, NoPlayer, Blackout 50, FillBlack]\<rparr>"

text \<open>A tick with one token in the touch queue, and one with a single touch reported by
  the display layer twice, as a finger press and as the mouse press made from it.\<close>

definition token :: tick_input where
  "token = \<lparr>events = [], touches = 1, frame_ms = 33\<rparr>"

definition touch :: tick_input where
  "touch = \<lparr>events = [FINGERDOWN, MOUSEBUTTONDOWN], touches = 0, frame_ms = 33\<rparr>"

text \<open>The fallback frame, a hundred frames later.\<close>

definition fallback_later :: world where
  "fallback_later = fallback\<lparr>clock := 3350, trace := trace fallback @ replicate 100 FrameTick\<rparr>"

text \<open>The first image, shown because the three-second clip has ended.\<close>

definition after_clip :: world where
  "after_clip =
     clip_over\<lparr>idx := 1, current_proc := None, last_was_video := False, last_show_ms := 3003,
       screen := 1, clock := 3053,
       trace := trace clip_over @
         [ShowCalled 1, Blackout 50, ResetDisplay, DrawImage (MEDIA_DIR @ ''img1.png'')]\<rparr>"

text \<open>
  Three taps, each after the dwell window, take the catalog of three items once around:
  the clip is showing again, started anew.
\<close>

definition three_taps :: "tick_input list" where
  "three_taps = replicate 40 idle @ [tap, tap] @ replicate 30 idle @ [tap]"

definition around :: world where
  "around =
     \<lparr>idx = 0, current_proc = Some (clip1\<lparr>started := 3926\<rparr>), last_was_video = True,
      last_show_ms = 3926, screen = 1, running = True, clock = 3959,
      trace =
        [ShowCalled 0, Launch (args clip1)] @ replicate 40 FrameTick @
        [EventSeen FINGERDOWN, ShowCalled 1, Terminate clip1, Blackout 50, ResetDisplay,
         DrawImage (MEDIA_DIR @ ''img1.png''), FrameTick,
         EventSeen FINGERDOWN, ShowCalled 2, DrawImage (MEDIA_DIR @ ''img2.png''), FrameTick] @
        replicate 30 FrameTick @
        [EventSeen FINGERDOWN, ShowCalled 0, Launch (args clip1), FrameTick]\<rparr>"


section \<open>Basic facts about one call of \<open>show\<close> and about the loop\<close>

lemma shows_in_append [simp]: "shows_in (xs @ ys) = shows_in xs + shows_in ys"
  by (simp add: shows_in_def)

lemma shows_in_Nil [simp]: "shows_in [] = 0"
  by (simp add: shows_in_def)

lemma shows_in_Cons [simp]: "shows_in (a # xs) = (if is_show a then 1 else 0) + shows_in xs"
  by (simp add: shows_in_def)

lemma inner_step_refl: "inner_step w w"
  by (simp add: inner_step_def)

lemma inner_step_trans: "inner_step a b \<Longrightarrow> inner_step b c \<Longrightarrow> inner_step a c"
  unfolding inner_step_def
  by (elim conjE exE, intro conjI, rule_tac x = "tr @ tra" in exI) auto

lemma show_item_unfold:
  "i < length (media E) \<Longrightarrow>
   show_item E i w =
     (case stop_running E (enter_show i w) of
        Inl e \<Rightarrow> Inl e
      | Inr w2 \<Rightarrow> Inr (if ext_of (media E ! i) \<in> IMG_EXTS then show_image E (media E ! i) w2
                       else show_video E (media E ! i) w2))"
  by (simp add: show_item_def Let_def)

lemma show_item_out_of_range: "\<not> i < length (media E) \<Longrightarrow> show_item E i w = Inl IndexError"
  by (simp add: show_item_def Let_def)

lemma player_cmd_none: "no_player E \<Longrightarrow> player_cmd E path = None"
  by (simp add: player_cmd_def no_player_def)

lemma show_video_no_player:
  "no_player E \<Longrightarrow>
   show_video E path w =
     w\<lparr>trace := trace w @ [NoPlayer, Blackout 50, FillBlack], clock := clock w + 50,
       current_proc := None, last_was_video := True\<rparr>"
  by (simp add: show_video_def play_video_def player_cmd_none emit_def blackout_def)

lemma stop_running_no_proc: "current_proc w = None \<Longrightarrow> stop_running E w = Inr w"
  by (simp add: stop_running_def)

lemma show_image_after_video:
  "last_was_video w \<Longrightarrow>
   show_image E path w =
     w\<lparr>trace := trace w @ [Blackout 50, ResetDisplay,
                           if image_ok E path then DrawImage path else ErrorFrame path],
       clock := clock w + 50, screen := Suc (screen w), last_was_video := False\<rparr>"
  by (simp add: show_image_def display_image_def reset_display_def blackout_def emit_def)

lemma show_image_after_image:
  "\<not> last_was_video w \<Longrightarrow>
   show_image E path w =
     w\<lparr>trace := trace w @ [if image_ok E path then DrawImage path else ErrorFrame path],
       last_was_video := False\<rparr>"
  by (simp add: show_image_def display_image_def emit_def)

lemma inner_step_stop_running: "stop_running E w = Inr w' \<Longrightarrow> inner_step w w'"
  by (auto simp: stop_running_def inner_step_def emit_def split: option.splits if_splits)

lemma inner_step_show_image: "inner_step w (show_image E path w)"
  by (cases "last_was_video w")
     (simp_all add: show_image_after_video show_image_after_image inner_step_def)

lemma inner_step_show_video: "inner_step w (show_video E path w)"
  by (auto simp: show_video_def play_video_def emit_def blackout_def inner_step_def
           split: option.splits)

lemma enter_show_simps [simp]:
  "trace (enter_show i w) = trace w @ [ShowCalled i]"
  "last_show_ms (enter_show i w) = clock w"
  "clock (enter_show i w) = clock w"
  "idx (enter_show i w) = idx w"
  "running (enter_show i w) = running w"
  "current_proc (enter_show i w) = current_proc w"
  "last_was_video (enter_show i w) = last_was_video w"
  "screen (enter_show i w) = screen w"
  by (simp_all add: enter_show_def emit_def)

lemma show_item_inner:
  assumes "show_item E i w = Inr w'"
  shows "inner_step (enter_show i w) w'"
proof -
  have lt: "i < length (media E)"
    using assms show_item_out_of_range by fastforce
  from assms obtain w2 where s: "stop_running E (enter_show i w) = Inr w2"
    and r: "w' = (if ext_of (media E ! i) \<in> IMG_EXTS then show_image E (media E ! i) w2
                  else show_video E (media E ! i) w2)"
    by (auto simp: show_item_unfold [OF lt] split: sum.splits)
  have "inner_step w2 w'"
    using r inner_step_show_image inner_step_show_video by simp
  with inner_step_stop_running [OF s] show ?thesis
    by (rule inner_step_trans)
qed

lemma show_item_facts:
  assumes "show_item E i w = Inr w'"
  shows "last_show_ms w' = clock w" and "idx w' = idx w" and "running w' = running w"
    and "clock w \<le> clock w'" and "shows_in (trace w') = Suc (shows_in (trace w))"
    and "\<exists>tr. trace w' = trace w @ ShowCalled i # tr \<and> list_all show_effect tr \<and> shows_in tr = 0"
  using show_item_inner [OF assms] by (auto simp: inner_step_def)

lemma run_step_refl: "run_step N w w"
  by (simp add: run_step_def)

lemma run_step_trans:
  assumes "run_step N a b" and "run_step N b c"
  shows "run_step N a c"
proof -
  from assms obtain t1 t2 where t1: "trace b = trace a @ t1" and t2: "trace c = trace b @ t2"
    by (auto simp: run_step_def)
  have idx: "idx c = (idx a + (shows_in t1 + shows_in t2)) mod N" if lt: "idx a < N"
  proof -
    have ia: "idx b = (idx a + shows_in t1) mod N"
      using assms(1) t1 lt by (simp add: run_step_def)
    then have "idx b < N"
      using lt by simp
    then have "idx c = (idx b + shows_in t2) mod N"
      using assms(2) t2 by (simp add: run_step_def)
    then show ?thesis
      unfolding ia by (simp add: mod_add_left_eq add.assoc)
  qed
  have "clock a \<le> clock c"
    using assms by (simp add: run_step_def)
  moreover have "shows_in (trace c) = shows_in (trace a) \<longrightarrow>
        idx c = idx a \<and> last_show_ms c = last_show_ms a \<and> current_proc c = current_proc a \<and>
        last_was_video c = last_was_video a \<and> screen c = screen a"
    using assms t1 t2 by (simp add: run_step_def)
  ultimately show ?thesis
    using t1 t2 idx by (simp add: run_step_def)
qed

lemma run_step_emit: "\<not> is_show a \<Longrightarrow> run_step N w (emit a w)"
  by (simp add: run_step_def emit_def)

lemma advance_show:
  "advance E w = show_item E ((idx w + 1) mod length (media E))
                   (w\<lparr>idx := (idx w + 1) mod length (media E)\<rparr>)"
  by (simp add: advance_def Let_def)

lemma advance_facts:
  assumes "advance E w = Inr w'"
  shows "idx w' = (idx w + 1) mod length (media E)" and "last_show_ms w' = clock w"
    and "shows_in (trace w') = Suc (shows_in (trace w))" and "clock w \<le> clock w'"
    and "\<exists>tr. trace w' = trace w @ ShowCalled ((idx w + 1) mod length (media E)) # tr \<and>
           list_all show_effect tr \<and> shows_in tr = 0"
    and "running w' = running w"
  using show_item_facts [OF assms [unfolded advance_show]] by simp_all

lemma run_step_advance:
  assumes "advance E w = Inr w'"
  shows "run_step (length (media E)) w w'"
  using advance_facts [OF assms] by (auto simp: run_step_def)

lemma run_step_on_press:
  assumes "on_press E a w = Inr w'" and "\<not> is_show a"
  shows "run_step (length (media E)) w w'"
  using assms run_step_advance run_step_emit
  by (auto simp: on_press_def split: if_splits)

lemma run_step_handle_event:
  assumes "handle_event E e w = Inr w'"
  shows "run_step (length (media E)) w w'"
proof -
  let ?N = "length (media E)"
  let ?w1 = "emit (EventSeen e) w"
  have a: "run_step ?N w ?w1"
    by (simp add: run_step_emit)
  have "run_step ?N ?w1 w'"
  proof (cases e)
    case QUIT
    then show ?thesis using assms by (auto simp: handle_event_def run_step_def emit_def Let_def)
  next
    case (KEYDOWN k)
    then show ?thesis using assms
      by (auto simp: handle_event_def run_step_def emit_def Let_def split: if_splits)
  next
    case FINGERDOWN
    then show ?thesis using assms run_step_on_press [of E PressIgnored ?w1 w']
      by (simp add: handle_event_def Let_def)
  next
    case MOUSEBUTTONDOWN
    then show ?thesis using assms run_step_on_press [of E PressIgnored ?w1 w']
      by (simp add: handle_event_def Let_def)
  next
    case OTHER_EVENT
    then show ?thesis using assms by (auto simp: handle_event_def run_step_def emit_def Let_def)
  qed
  with a show ?thesis by (rule run_step_trans)
qed

lemma run_step_handle_events:
  "handle_events E es w = Inr w' \<Longrightarrow> run_step (length (media E)) w w'"
proof (induction es arbitrary: w)
  case Nil
  then show ?case by (simp add: run_step_refl)
next
  case (Cons e es)
  from Cons.prems obtain w1 where h: "handle_event E e w = Inr w1"
    and r: "handle_events E es w1 = Inr w'"
    by (auto split: sum.splits)
  show ?case
    using run_step_handle_event [OF h] Cons.IH [OF r] by (rule run_step_trans)
qed

lemma auto_advance_cases:
  assumes "auto_advance E w = Inr w'"
  shows "w' = w \<or>
         (\<exists>p. current_proc w = Some p \<and> exited E p (clock w) \<and>
              advance E (w\<lparr>current_proc := None, last_was_video := True\<rparr>) = Inr w')"
  using assms by (auto simp: auto_advance_def split: option.splits if_splits)

lemma run_step_auto_advance:
  assumes "auto_advance E w = Inr w'"
  shows "run_step (length (media E)) w w'"
  using auto_advance_cases [OF assms]
proof
  assume "w' = w"
  then show ?thesis by (simp add: run_step_refl)
next
  let ?w0 = "w\<lparr>current_proc := None, last_was_video := True\<rparr>"
  assume "\<exists>p. current_proc w = Some p \<and> exited E p (clock w) \<and> advance E ?w0 = Inr w'"
  then have a: "advance E ?w0 = Inr w'"
    by blast
  from advance_facts [OF a] show ?thesis
    by (auto simp: run_step_def)
qed

lemma run_step_drain:
  "drain_touch_queue E n w = Inr w' \<Longrightarrow> run_step (length (media E)) w w'"
proof (induction n arbitrary: w)
  case 0
  then show ?case by (simp add: run_step_refl)
next
  case (Suc n)
  from Suc.prems obtain w1 where h: "on_press E EvdevIgnored w = Inr w1"
    and r: "drain_touch_queue E n w1 = Inr w'"
    by (auto split: sum.splits)
  have "run_step (length (media E)) w w1"
    using run_step_on_press [OF h] by simp
  then show ?case
    using Suc.IH [OF r] by (rule run_step_trans)
qed

lemma run_step_frame_tick: "run_step N w (frame_tick ms w)"
  by (simp add: run_step_def frame_tick_def emit_def)

lemma tick_phases:
  assumes "tick E inp w = Inr w'"
  obtains w1 w2 w3 where
    "handle_events E (events inp) w = Inr w1" and
    "auto_advance E w1 = Inr w2" and
    "drain_touch_queue E (touches inp) w2 = Inr w3" and
    "w' = frame_tick (frame_ms inp) w3"
  using assms by (auto simp: tick_def split: sum.splits)

lemma run_step_tick:
  assumes "tick E inp w = Inr w'"
  shows "run_step (length (media E)) w w'"
proof -
  let ?N = "length (media E)"
  from assms obtain w1 w2 w3 where
    1: "handle_events E (events inp) w = Inr w1" and
    2: "auto_advance E w1 = Inr w2" and
    3: "drain_touch_queue E (touches inp) w2 = Inr w3" and
    4: "w' = frame_tick (frame_ms inp) w3"
    by (rule tick_phases)
  have "run_step ?N w w2"
    using run_step_handle_events [OF 1] run_step_auto_advance [OF 2] by (rule run_step_trans)
  then have "run_step ?N w w3"
    using run_step_drain [OF 3] by (rule run_step_trans)
  then show ?thesis
    unfolding 4 using run_step_frame_tick by (rule run_step_trans)
qed

lemma run_step_main_loop:
  "main_loop E inps w = Inr w' \<Longrightarrow> run_step (length (media E)) w w'"
proof (induction inps arbitrary: w)
  case Nil
  then show ?case by (simp add: run_step_refl)
next
  case (Cons inp inps)
  show ?case
  proof (cases "running w")
    case False
    then show ?thesis using Cons.prems by (simp add: run_step_refl)
  next
    case True
    with Cons.prems obtain w1 where h: "tick E inp w = Inr w1"
      and r: "main_loop E inps w1 = Inr w'"
      by (auto split: sum.splits)
    show ?thesis
      using run_step_tick [OF h] Cons.IH [OF r] by (rule run_step_trans)
  qed
qed

lemma emits_refl: "emits P 0 w w"
  by (simp add: emits_def)

lemma emits_trans: "emits P j a b \<Longrightarrow> emits P k b c \<Longrightarrow> emits P (j + k) a c"
  unfolding emits_def
  by (elim exE conjE, rule_tac x = "tr @ tra" in exI) simp

lemma emits_mono: "emits P j a b \<Longrightarrow> (\<And>x. P x \<Longrightarrow> Q x) \<Longrightarrow> j \<le> k \<Longrightarrow> emits Q k a b"
  unfolding emits_def
  by (elim exE conjE, rule_tac x = tr in exI) (auto simp: list_all_iff)

lemma emits_emit: "P a \<Longrightarrow> \<not> is_show a \<Longrightarrow> emits P 0 w (emit a w)"
  by (simp add: emits_def emit_def)

lemma emits_advance:
  assumes "advance E w = Inr w'"
  shows "emits show_effect 1 w w'"
  using advance_facts(5) [OF assms] by (auto simp: emits_def)

lemma show_effect_events: "show_effect a \<Longrightarrow> events_effect a"
  by (cases a) simp_all

lemma show_effect_queue: "show_effect a \<Longrightarrow> queue_effect a"
  by (cases a) simp_all

lemma emits_on_press:
  assumes "on_press E a w = Inr w'" and "P a" and "\<not> is_show a"
    and "\<And>x. show_effect x \<Longrightarrow> P x"
  shows "emits P 1 w w'"
proof (cases "MIN_VIEW_MS \<le> clock w - last_show_ms w")
  case True
  then have "advance E w = Inr w'"
    using assms(1) by (simp add: on_press_def)
  from emits_mono [OF emits_advance [OF this] assms(4) order_refl] show ?thesis .
next
  case False
  then have "w' = emit a w"
    using assms(1) by (simp add: on_press_def)
  moreover have "emits P 0 w (emit a w)"
    using assms(2,3) by (simp add: emits_def emit_def)
  ultimately show ?thesis
    by (auto intro: emits_mono)
qed

lemma emits_handle_event:
  assumes "handle_event E e w = Inr w'"
  shows "emits events_effect (if pointer_down e then 1 else 0) w w'"
proof -
  let ?w1 = "emit (EventSeen e) w"
  have a: "emits events_effect 0 w ?w1"
    by (simp add: emits_emit)
  have "emits events_effect (if pointer_down e then 1 else 0) ?w1 w'"
  proof (cases "pointer_down e")
    case True
    then have "on_press E PressIgnored ?w1 = Inr w'"
      using assms by (auto simp: pointer_down_def handle_event_def Let_def)
    then have "emits events_effect 1 ?w1 w'"
      by (rule emits_on_press) (simp_all add: show_effect_events)
    then show ?thesis
      using True by simp
  next
    case False
    then have "trace w' = trace ?w1"
      using assms by (cases e) (auto simp: pointer_down_def handle_event_def Let_def)
    then show ?thesis
      using False by (simp add: emits_def)
  qed
  with a show ?thesis
    using emits_trans by fastforce
qed

lemma emits_handle_events:
  "handle_events E es w = Inr w' \<Longrightarrow>
   emits events_effect (length (filter pointer_down es)) w w'"
proof (induction es arbitrary: w)
  case Nil
  then show ?case by (simp add: emits_refl)
next
  case (Cons e es)
  from Cons.prems obtain w1 where h: "handle_event E e w = Inr w1"
    and r: "handle_events E es w1 = Inr w'"
    by (auto split: sum.splits)
  from emits_trans [OF emits_handle_event [OF h] Cons.IH [OF r]] show ?case
    by (cases "pointer_down e") simp_all
qed

lemma emits_auto_advance:
  assumes "auto_advance E w = Inr w'"
  shows "emits show_effect 1 w w'"
  using auto_advance_cases [OF assms]
proof
  assume "w' = w"
  then show ?thesis
    using emits_refl [of show_effect w] by (auto intro: emits_mono)
next
  assume "\<exists>p. current_proc w = Some p \<and> exited E p (clock w) \<and>
    advance E (w\<lparr>current_proc := None, last_was_video := True\<rparr>) = Inr w'"
  then have "advance E (w\<lparr>current_proc := None, last_was_video := True\<rparr>) = Inr w'"
    by blast
  from emits_advance [OF this] show ?thesis
    by (simp add: emits_def)
qed

lemma emits_drain:
  "drain_touch_queue E n w = Inr w' \<Longrightarrow> emits queue_effect n w w'"
proof (induction n arbitrary: w)
  case 0
  then show ?case by (simp add: emits_refl)
next
  case (Suc n)
  from Suc.prems obtain w1 where h: "on_press E EvdevIgnored w = Inr w1"
    and r: "drain_touch_queue E n w1 = Inr w'"
    by (auto split: sum.splits)
  have "emits queue_effect 1 w w1"
    using h by (rule emits_on_press) (simp_all add: show_effect_queue)
  from emits_trans [OF this Suc.IH [OF r]] show ?case
    by simp
qed

lemma tick_structure:
  assumes "tick E inp w = Inr w'"
  shows "\<exists>w1 w2 w3 A B C.
      handle_events E (events inp) w = Inr w1 \<and> trace w1 = trace w @ A \<and>
      auto_advance E w1 = Inr w2 \<and> trace w2 = trace w1 @ B \<and>
      drain_touch_queue E (touches inp) w2 = Inr w3 \<and> trace w3 = trace w2 @ C \<and>
      w' = frame_tick (frame_ms inp) w3 \<and>
      trace w' = trace w @ A @ B @ C @ [FrameTick] \<and>
      list_all events_effect A \<and> list_all show_effect B \<and> list_all queue_effect C \<and>
      shows_in A \<le> length (filter pointer_down (events inp)) \<and> shows_in B \<le> 1 \<and>
      shows_in C \<le> touches inp"
proof -
  from assms obtain w1 w2 w3 where
    1: "handle_events E (events inp) w = Inr w1" and
    2: "auto_advance E w1 = Inr w2" and
    3: "drain_touch_queue E (touches inp) w2 = Inr w3" and
    4: "w' = frame_tick (frame_ms inp) w3"
    by (rule tick_phases)
  from emits_handle_events [OF 1] obtain A where A: "trace w1 = trace w @ A"
    "list_all events_effect A" "shows_in A \<le> length (filter pointer_down (events inp))"
    by (auto simp: emits_def)
  from emits_auto_advance [OF 2] obtain B where B: "trace w2 = trace w1 @ B"
    "list_all show_effect B" "shows_in B \<le> 1"
    by (auto simp: emits_def)
  from emits_drain [OF 3] obtain C where C: "trace w3 = trace w2 @ C"
    "list_all queue_effect C" "shows_in C \<le> touches inp"
    by (auto simp: emits_def)
  have tr: "trace w' = trace w @ A @ B @ C @ [FrameTick]"
    unfolding 4 by (simp add: frame_tick_def emit_def A(1) B(1) C(1))
  show ?thesis
    by (rule exI [of _ w1], rule exI [of _ w2], rule exI [of _ w3],
        rule exI [of _ A], rule exI [of _ B], rule exI [of _ C])
       (intro conjI 1 2 3 4 A B C tr)
qed

lemma still_refl: "still w w"
  by (simp add: still_def)

lemma still_trans:
  assumes "still a b" and "still b c"
  shows "still a c"
proof -
  from assms obtain t1 t2 where t: "trace b = trace a @ t1" "trace c = trace b @ t2"
    and q: "list_all (\<lambda>x. \<not> show_effect x) t1" "list_all (\<lambda>x. \<not> show_effect x) t2"
    unfolding still_def by blast
  have "trace c = trace a @ (t1 @ t2)" and "list_all (\<lambda>x. \<not> show_effect x) (t1 @ t2)"
    using t q by simp_all
  then have "\<exists>tr. trace c = trace a @ tr \<and> list_all (\<lambda>x. \<not> show_effect x) tr"
    by blast
  then show ?thesis
    using assms unfolding still_def by simp
qed

lemma not_show_effect: "\<not> show_effect a \<Longrightarrow> \<not> is_show a"
  by (cases a) simp_all

lemma quiet_trace_shows: "list_all (\<lambda>a. \<not> show_effect a) tr \<Longrightarrow> shows_in tr = 0"
  by (induction tr) (simp_all add: not_show_effect)

lemma still_shows: "still w w' \<Longrightarrow> shows_in (trace w') = shows_in (trace w)"
  unfolding still_def by (elim conjE exE) (simp add: quiet_trace_shows)

lemma auto_advance_no_proc: "current_proc w = None \<Longrightarrow> auto_advance E w = Inr w"
  by (simp add: auto_advance_def)

lemma still_emit: "\<not> show_effect x \<Longrightarrow> still w (emit x w)"
  by (simp add: still_def emit_def)

lemma still_stop: "still w (w\<lparr>running := False\<rparr>)"
  by (simp add: still_def)

lemma handle_event_quiet:
  assumes "\<not> pointer_down e"
  shows "\<exists>w'. handle_event E e w = Inr w' \<and> still w w'"
proof -
  let ?w1 = "emit (EventSeen e) w"
  have s1: "still w ?w1"
    by (simp add: still_emit)
  have s2: "still w (?w1\<lparr>running := False\<rparr>)"
    using s1 still_stop by (rule still_trans)
  show ?thesis
  proof (cases e)
    case QUIT
    then show ?thesis using s2 by (simp add: handle_event_def Let_def)
  next
    case (KEYDOWN k)
    show ?thesis
    proof (cases "k = K_ESCAPE")
      case True
      have "handle_event E e w = Inr (?w1\<lparr>running := False\<rparr>)"
        unfolding KEYDOWN using True by (simp add: handle_event_def Let_def)
      with s2 show ?thesis by blast
    next
      case False
      have "handle_event E e w = Inr ?w1"
        unfolding KEYDOWN using False by (simp add: handle_event_def Let_def)
      with s1 show ?thesis by blast
    qed
  next
    case FINGERDOWN
    then show ?thesis using assms by (simp add: pointer_down_def)
  next
    case MOUSEBUTTONDOWN
    then show ?thesis using assms by (simp add: pointer_down_def)
  next
    case OTHER_EVENT
    then show ?thesis using s1 by (simp add: handle_event_def Let_def)
  qed
qed

lemma handle_events_quiet:
  "\<not> list_ex pointer_down es \<Longrightarrow> \<exists>w'. handle_events E es w = Inr w' \<and> still w w'"
proof (induction es arbitrary: w)
  case Nil
  then show ?case by (simp add: still_refl)
next
  case (Cons e es)
  from Cons.prems have e: "\<not> pointer_down e" and es: "\<not> list_ex pointer_down es"
    by simp_all
  from handle_event_quiet [OF e] obtain w1 where 1: "handle_event E e w = Inr w1" "still w w1"
    by blast
  from Cons.IH [OF es] obtain w' where 2: "handle_events E es w1 = Inr w'" "still w1 w'"
    by blast
  have "handle_events E (e # es) w = Inr w'"
    using 1(1) 2(1) by simp
  moreover have "still w w'"
    using 1(2) 2(2) by (rule still_trans)
  ultimately show ?case
    by blast
qed

lemma tick_quiet:
  assumes "quiet inp" and "current_proc w = None"
  shows "\<exists>w'. tick E inp w = Inr w' \<and> still w w'"
proof -
  from assms(1) have "\<not> list_ex pointer_down (events inp)" and t0: "touches inp = 0"
    by (simp_all add: quiet_def)
  from handle_events_quiet [OF this(1)]
  obtain w1 where 1: "handle_events E (events inp) w = Inr w1" "still w w1"
    by blast
  have n: "current_proc w1 = None"
    using 1(2) assms(2) by (simp add: still_def)
  have t: "tick E inp w = Inr (frame_tick (frame_ms inp) w1)"
    using 1(1) t0 by (simp add: tick_def auto_advance_no_proc [OF n])
  have "still w1 (frame_tick (frame_ms inp) w1)"
    by (simp add: still_def frame_tick_def emit_def)
  with 1(2) have "still w (frame_tick (frame_ms inp) w1)"
    by (rule still_trans)
  with t show ?thesis
    by blast
qed

lemma main_loop_quiet:
  "list_all quiet inps \<Longrightarrow> current_proc w = None \<Longrightarrow>
   \<exists>w'. main_loop E inps w = Inr w' \<and> still w w'"
proof (induction inps arbitrary: w)
  case Nil
  then show ?case by (simp add: still_refl)
next
  case (Cons inp inps)
  show ?case
  proof (cases "running w")
    case False
    then show ?thesis by (simp add: still_refl)
  next
    case True
    from Cons.prems(1) have q: "quiet inp" and qs: "list_all quiet inps"
      by simp_all
    from tick_quiet [OF q Cons.prems(2)] obtain w1 where 1: "tick E inp w = Inr w1" "still w w1"
      by blast
    then have "current_proc w1 = None"
      using Cons.prems(2) by (simp add: still_def)
    from Cons.IH [OF qs this] obtain w' where 2: "main_loop E inps w1 = Inr w'" "still w1 w'"
      by blast
    have "main_loop E (inp # inps) w = Inr w'"
      using True 1(1) 2(1) by simp
    moreover have "still w w'"
      using 1(2) 2(2) by (rule still_trans)
    ultimately show ?thesis
      by blast
  qed
qed

lemma drain_one: "drain_touch_queue E 1 w = on_press E EvdevIgnored w"
  by (cases "on_press E EvdevIgnored w") simp_all

lemma timeout_or_ok_Inr [simp]: "timeout_or_ok (Inr w)"
  by (simp add: timeout_or_ok_def)

lemma timeout_or_ok_Inl [simp]: "timeout_or_ok (Inl e) \<longleftrightarrow> e = TimeoutExpired"
  by (simp add: timeout_or_ok_def)

lemma timeout_or_ok_cases:
  "timeout_or_ok r \<longleftrightarrow> r = Inl TimeoutExpired \<or> (\<exists>w. r = Inr w)"
  by (cases r) auto

lemma timeout_or_ok_bind:
  assumes "timeout_or_ok r" and "\<And>w. r = Inr w \<Longrightarrow> timeout_or_ok (f w)"
  shows "timeout_or_ok (case r of Inl x \<Rightarrow> Inl x | Inr w \<Rightarrow> f w)"
  using assms by (cases r) simp_all

lemma stop_running_ok: "timeout_or_ok (stop_running E w)"
  by (simp add: stop_running_def split: option.split)

lemma show_item_ok:
  assumes "i < length (media E)"
  shows "timeout_or_ok (show_item E i w)"
  unfolding show_item_unfold [OF assms]
  by (rule timeout_or_ok_bind [OF stop_running_ok]) simp

lemma advance_ok:
  assumes "media E \<noteq> []"
  shows "timeout_or_ok (advance E w)"
  unfolding advance_show using assms by (intro show_item_ok) simp

lemma on_press_ok: "media E \<noteq> [] \<Longrightarrow> timeout_or_ok (on_press E a w)"
  by (simp add: on_press_def advance_ok)

lemma handle_event_ok: "media E \<noteq> [] \<Longrightarrow> timeout_or_ok (handle_event E e w)"
  by (cases e) (simp_all add: handle_event_def Let_def on_press_ok)

lemma handle_events_ok: "media E \<noteq> [] \<Longrightarrow> timeout_or_ok (handle_events E es w)"
proof (induction es arbitrary: w)
  case Nil
  then show ?case by simp
next
  case (Cons e es)
  show ?case
    unfolding handle_events.simps
    by (rule timeout_or_ok_bind) (simp_all add: handle_event_ok Cons)
qed

lemma auto_advance_ok: "media E \<noteq> [] \<Longrightarrow> timeout_or_ok (auto_advance E w)"
  by (simp add: auto_advance_def advance_ok split: option.split)

lemma drain_touch_queue_ok: "media E \<noteq> [] \<Longrightarrow> timeout_or_ok (drain_touch_queue E n w)"
proof (induction n arbitrary: w)
  case 0
  then show ?case by simp
next
  case (Suc n)
  show ?case
    unfolding drain_touch_queue.simps
    by (rule timeout_or_ok_bind) (simp_all add: on_press_ok Suc)
qed

lemma tick_ok:
  assumes "media E \<noteq> []"
  shows "timeout_or_ok (tick E inp w)"
  unfolding tick_def
proof (rule timeout_or_ok_bind)
  show "timeout_or_ok (handle_events E (events inp) w)"
    using assms by (rule handle_events_ok)
next
  fix w1
  show "timeout_or_ok
     (case auto_advance E w1 of
        Inl x \<Rightarrow> Inl x
      | Inr w2 \<Rightarrow>
          (case drain_touch_queue E (touches inp) w2 of
             Inl x \<Rightarrow> Inl x
           | Inr w3 \<Rightarrow> Inr (frame_tick (frame_ms inp) w3)))"
  proof (rule timeout_or_ok_bind)
    show "timeout_or_ok (auto_advance E w1)"
      using assms by (rule auto_advance_ok)
  next
    fix w2
    show "timeout_or_ok
       (case drain_touch_queue E (touches inp) w2 of
          Inl x \<Rightarrow> Inl x
        | Inr w3 \<Rightarrow> Inr (frame_tick (frame_ms inp) w3))"
      by (rule timeout_or_ok_bind) (simp_all add: drain_touch_queue_ok assms)
  qed
qed

lemma main_loop_ok: "media E \<noteq> [] \<Longrightarrow> timeout_or_ok (main_loop E inps w)"
proof (induction inps arbitrary: w)
  case Nil
  then show ?case by simp
next
  case (Cons inp inps)
  show ?case
  proof (cases "running w")
    case False
    then show ?thesis by simp
  next
    case True
    have "timeout_or_ok (case tick E inp w of Inl x \<Rightarrow> Inl x | Inr w' \<Rightarrow> main_loop E inps w')"
      by (rule timeout_or_ok_bind) (simp_all add: tick_ok Cons)
    then show ?thesis
      using True by simp
  qed
qed

lemma main_run_ok:
  assumes "media E \<noteq> []"
  shows "timeout_or_ok (main_run E t0 inps)"
proof -
  have "timeout_or_ok (show_item E 0 (initial t0))"
    using assms by (intro show_item_ok) simp
  then have "timeout_or_ok (main_start E t0)"
    using assms by (simp add: main_start_def)
  then show ?thesis
    unfolding main_run_def
    by (rule timeout_or_ok_bind) (simp add: main_loop_ok assms)
qed

lemma advance_no_proc:
  assumes "media E \<noteq> []" and "current_proc w = None"
  shows "\<exists>w'. advance E w = Inr w'"
proof -
  let ?i = "(idx w + 1) mod length (media E)"
  have lt: "?i < length (media E)"
    using assms(1) by simp
  have "stop_running E (enter_show ?i (w\<lparr>idx := ?i\<rparr>)) = Inr (enter_show ?i (w\<lparr>idx := ?i\<rparr>))"
    using assms(2) by (simp add: stop_running_no_proc)
  then show ?thesis
    unfolding advance_show show_item_unfold [OF lt] by simp
qed


section \<open>Facts about file names and extensions\<close>


lemma of_char_less_256: "(of_char c :: nat) < 256"
proof -
  have "(of_char (char_of (of_char c :: nat)) :: nat) = of_char c mod 256"
    by (rule of_char_of)
  then have "(of_char c :: nat) = of_char c mod 256"
    by (simp only: char_of_char)
  then show ?thesis
    by arith
qed

lemma lower_char_keeps: 
  assumes "(of_char d :: nat) < 65 \<or> 90 < (of_char d :: nat)" and "(of_char d :: nat) < 97 \<or> 122 < (of_char d :: nat)"
  shows "lower_char c = d \<longleftrightarrow> c = d"
proof -
  have b: "(of_char c :: nat) < 256" by (rule of_char_less_256)
  show ?thesis
  proof (cases "65 \<le> (of_char c :: nat) \<and> (of_char c :: nat) \<le> 90")
    case True
    then have "of_char (lower_char c) = (of_char c :: nat) + 32"
      by (simp add: lower_char_def Let_def of_char_of)
    then show ?thesis using True assms by auto
  next
    case False
    then show ?thesis by (auto simp: lower_char_def Let_def)
  qed
qed

lemma lower_char_dot [simp]: "lower_char c = CHR ''.'' \<longleftrightarrow> c = CHR ''.''"
  by (rule lower_char_keeps) simp_all

lemma lower_char_slash [simp]: "lower_char c = CHR ''/'' \<longleftrightarrow> c = CHR ''/''"
  by (rule lower_char_keeps) simp_all

lemma lower_char_idem [simp]: "lower_char (lower_char c) = lower_char c"
proof (cases "65 \<le> (of_char c :: nat) \<and> (of_char c :: nat) \<le> 90")
  case True
  then have "of_char (lower_char c) = (of_char c :: nat) + 32"
    by (simp add: lower_char_def Let_def of_char_of)
  then have "\<not> (65 \<le> (of_char (lower_char c) :: nat) \<and> (of_char (lower_char c) :: nat) \<le> 90)"
    using True by simp
  then show ?thesis
    by (auto simp: lower_char_def [of "lower_char c"] Let_def)
next
  case False
  then show ?thesis by (auto simp: lower_char_def Let_def)
qed

lemma lower_idem [simp]: "lower (lower s) = lower s"
  by (simp add: lower_def)

lemma rfind_aux_append:
  "rfind_aux c (xs @ ys) i r = rfind_aux c ys (i + int (length xs)) (rfind_aux c xs i r)"
  by (induction xs arbitrary: i r) (simp_all add: add.assoc)

lemma rfind_aux_absent: "c \<notin> set ys \<Longrightarrow> rfind_aux c ys i r = r"
  by (induction ys arbitrary: i r) auto

lemma rfind_aux_present: "c \<in> set ys \<Longrightarrow> rfind_aux c ys i r = rfind_aux c ys i r'"
proof (induction ys arbitrary: i r r')
  case Nil
  then show ?case by simp
next
  case (Cons y ys)
  show ?case
  proof (cases "c \<in> set ys")
    case True
    then show ?thesis using Cons.IH by simp
  next
    case False
    then have "y = c" using Cons.prems by simp
    then show ?thesis using False by (simp add: rfind_aux_absent)
  qed
qed

lemma rfind_aux_shift: "rfind_aux c ys (i + k) (r + k) = rfind_aux c ys i r + k"
proof (induction ys arbitrary: i r)
  case Nil
  then show ?case by simp
next
  case (Cons y ys)
  have "rfind_aux c ys (i + k + 1) (if y = c then i + k else r + k) =
        rfind_aux c ys ((i + 1) + k) ((if y = c then i else r) + k)"
    by (simp add: add.commute add.left_commute)
  then show ?case using Cons.IH [of "i + 1" "if y = c then i else r"] by simp
qed

lemma rfind_aux_bounds:
  "c \<in> set ys \<Longrightarrow> i \<le> rfind_aux c ys i r \<and> rfind_aux c ys i r < i + int (length ys)"
proof (induction ys arbitrary: i r)
  case Nil
  then show ?case by simp
next
  case (Cons y ys)
  show ?case
  proof (cases "c \<in> set ys")
    case True
    from Cons.IH [OF True, of "i + 1" "if y = c then i else r"] show ?thesis by simp
  next
    case False
    then have "y = c" using Cons.prems by simp
    then show ?thesis using False by (simp add: rfind_aux_absent)
  qed
qed

lemma rfind_absent: "c \<notin> set p \<Longrightarrow> rfind c p = - 1"
  by (simp add: rfind_def rfind_aux_absent)

lemma rfind_present: "c \<in> set p \<Longrightarrow> 0 \<le> rfind c p \<and> rfind c p < int (length p)"
  using rfind_aux_bounds [of c p 0 "- 1"] by (simp add: rfind_def)

lemma rfind_append_present:
  assumes "c \<in> set ys"
  shows "rfind c (xs @ ys) = int (length xs) + rfind c ys"
proof -
  have "rfind c (xs @ ys) = rfind_aux c ys (0 + int (length xs)) (- 1 + int (length xs))"
    unfolding rfind_def rfind_aux_append using rfind_aux_present [OF assms] by simp
  also have "\<dots> = rfind_aux c ys 0 (- 1) + int (length xs)"
    by (rule rfind_aux_shift)
  finally show ?thesis by (simp add: rfind_def)
qed

lemma rfind_append_absent: "c \<notin> set ys \<Longrightarrow> rfind c (xs @ ys) = rfind c xs"
  by (simp add: rfind_def rfind_aux_append rfind_aux_absent)

lemma rfind_last:
  assumes "xs \<noteq> []" and "last xs = c"
  shows "rfind c xs = int (length xs) - 1"
proof -
  have "xs = butlast xs @ [c]"
    using assms by (metis append_butlast_last_id)
  then have "rfind c xs = rfind c (butlast xs @ [c])"
    by simp
  also have "\<dots> = int (length (butlast xs)) + rfind c [c]"
    by (rule rfind_append_present) simp
  also have "\<dots> = int (length xs) - 1"
    using assms(1) by (cases xs) (simp_all add: rfind_def)
  finally show ?thesis .
qed

lemma rfind_dir_prefix:
  assumes "d \<noteq> []" and "last d = c"
  shows "rfind c (d @ f) = int (length d) + rfind c f"
proof (cases "c \<in> set f")
  case True
  then show ?thesis by (rule rfind_append_present)
next
  case False
  then show ?thesis
    using rfind_last [OF assms] by (simp add: rfind_append_absent rfind_absent)
qed

lemma splitext_ext_dir_prefix:
  assumes "d \<noteq> []" and "last d = CHR ''/''" and "CHR ''.'' \<notin> set d"
  shows "splitext_ext (d @ f) = splitext_ext f"
proof (cases "CHR ''.'' \<in> set f")
  case False
  have s: "- 1 \<le> rfind (CHR ''/'') f"
    using rfind_present [of "CHR ''/''" f] rfind_absent [of "CHR ''/''" f] by (cases "CHR ''/'' \<in> set f") simp_all
  have "rfind (CHR ''.'') (d @ f) = - 1" and "rfind (CHR ''.'') f = - 1"
    using False assms(3) by (simp_all add: rfind_absent)
  moreover have "- 1 \<le> rfind (CHR ''/'') (d @ f)"
    using s unfolding rfind_dir_prefix [OF assms(1,2)] by simp
  ultimately show ?thesis
    using s by (simp add: splitext_ext_def Let_def)
next
  case True
  let ?n = "int (length d)"
  let ?sep = "rfind (CHR ''/'') f" and ?dot = "rfind (CHR ''.'') f"
  have s: "- 1 \<le> ?sep"
    using rfind_present [of "CHR ''/''" f] rfind_absent [of "CHR ''/''" f] by (cases "CHR ''/'' \<in> set f") simp_all
  have dt: "0 \<le> ?dot"
    using rfind_present [OF True] by simp
  have 1: "rfind (CHR ''/'') (d @ f) = ?n + ?sep"
    by (rule rfind_dir_prefix [OF assms(1,2)])
  have 2: "rfind (CHR ''.'') (d @ f) = ?n + ?dot"
    by (rule rfind_append_present [OF True])
  have 3: "nat (?n + ?sep + 1) = length d + nat (?sep + 1)"
    using s by linarith
  have 4: "nat (?n + ?dot) = length d + nat ?dot"
    using dt by linarith
  have 5: "?n + ?dot - (?n + ?sep + 1) = ?dot - (?sep + 1)"
    by simp
  show ?thesis
    unfolding splitext_ext_def Let_def 1 2 5 3 4 by simp
qed

lemma rfind_aux_map:
  assumes "\<And>x. g x = c \<longleftrightarrow> x = c"
  shows "rfind_aux c (map g xs) i r = rfind_aux c xs i r"
  by (induction xs arbitrary: i r) (simp_all add: assms)

lemma splitext_ext_map:
  assumes "\<And>x. g x = CHR ''.'' \<longleftrightarrow> x = CHR ''.''" and "\<And>x. g x = CHR ''/'' \<longleftrightarrow> x = CHR ''/''"
  shows "splitext_ext (map g p) = map g (splitext_ext p)"
proof -
  have "list_ex (\<lambda>ch. ch \<noteq> CHR ''.'') (take k (drop j (map g p))) =
        list_ex (\<lambda>ch. ch \<noteq> CHR ''.'') (take k (drop j p))" for k j
    by (simp add: drop_map take_map list_ex_iff assms(1))
  then show ?thesis
    by (simp add: splitext_ext_def Let_def rfind_def rfind_aux_map assms drop_map)
qed

lemma ext_of_lower: "ext_of p = splitext_ext (lower p)"
  by (simp add: ext_of_def lower_def splitext_ext_map)

lemma ext_of_case_insensitive: "lower p = lower q \<Longrightarrow> ext_of p = ext_of q"
  by (simp add: ext_of_lower)


lemma MEDIA_DIR_facts:
  "MEDIA_DIR \<noteq> []" "last MEDIA_DIR = CHR ''/''" "hd MEDIA_DIR = CHR ''/''"
  "CHR ''.'' \<notin> set MEDIA_DIR"
  by (simp_all add: MEDIA_DIR_def)

lemma path_join_cases:
  "path_join MEDIA_DIR f = (if f \<noteq> [] \<and> hd f = CHR ''/'' then f else MEDIA_DIR @ f)"
  by (simp add: path_join_def MEDIA_DIR_facts)

lemma path_join_absolute:
  "path_join MEDIA_DIR f \<noteq> [] \<and> hd (path_join MEDIA_DIR f) = CHR ''/''"
  by (simp add: path_join_cases MEDIA_DIR_facts hd_append)

lemma ext_of_path_join: "ext_of (path_join MEDIA_DIR f) = ext_of f"
  by (simp add: path_join_cases ext_of_def splitext_ext_dir_prefix MEDIA_DIR_facts)

lemma path_join_plain: "CHR ''/'' \<notin> set f \<Longrightarrow> path_join MEDIA_DIR f = MEDIA_DIR @ f"
  by (cases f) (auto simp: path_join_cases)

lemma prefix_le_mono: "xs \<le> ys \<Longrightarrow> d @ xs \<le> d @ (ys :: string)"
  by (induction d) simp_all

lemma sorted_prefixed: "sorted fs \<Longrightarrow> sorted (map ((@) d) (fs :: string list))"
  by (induction fs) (auto simp: prefix_le_mono)

lemma load_media_list_perm:
  assumes "mset xs = mset ys"
  shows "load_media_list xs = load_media_list ys"
proof -
  have "sort xs = sort ys"
    by (rule properties_for_sort) (simp_all add: assms)
  then show ?thesis
    by (simp add: load_media_list_def)
qed

lemma load_media_list_names:
  "sorted (filter supported (sort listing))"
  "mset (filter supported (sort listing)) = filter_mset supported (mset listing)"
  by (simp_all add: sorted_wrt_filter)

lemma load_media_list_plain:
  assumes "\<forall>f\<in>set listing. CHR ''/'' \<notin> set f"
  shows "load_media_list listing = map ((@) MEDIA_DIR) (filter supported (sort listing))"
  unfolding load_media_list_def using assms by (auto simp: path_join_plain)

lemma load_media_list_ext:
  assumes "p \<in> set (load_media_list listing)"
  shows "ext_of p \<in> IMG_EXTS \<union> VID_EXTS"
proof -
  from assms obtain f where "p = path_join MEDIA_DIR f" and "supported f"
    by (auto simp: load_media_list_def)
  then show ?thesis
    by (simp add: ext_of_path_join supported_def)
qed

lemma exts_disjoint: "IMG_EXTS \<inter> VID_EXTS = {}"
  by (simp add: IMG_EXTS_def VID_EXTS_def)


section \<open>The index into the catalog\<close>

text \<open>
  Claim C5. For a catalog of \<open>N \<ge> 1\<close> items no run and no advance ever leaves the range
  of the catalog: reading \<open>media[idx]\<close> never raises, the only exception a run or an
  advance can end with being the one of the wait for a terminated player. The run starts
  by showing item 0 and every advance is one more call of \<open>show\<close>: after \<open>k\<close> advances (the
  calls of \<open>show\<close> in the trace, less the first) the index is \<open>k mod N\<close>, below \<open>N\<close>. An
  advance from any state moves the index to \<open>(idx + 1) mod N\<close>, wrapping after the last
  item, and it always returns when no player has to be stopped. It goes through \<open>show\<close>
  whatever \<open>N\<close> is; for \<open>N = 1\<close> that is \<open>show(0)\<close> again.
\<close>

theorem C5_index_is_advances_mod_N:
  assumes "media E \<noteq> []"
  shows "main_run E t0 inps \<noteq> Inl IndexError \<and>
         (main_run E t0 inps = Inl TimeoutExpired \<or>
          (\<exists>w. main_run E t0 inps = Inr w \<and>
               idx w = (shows_in (trace w) - 1) mod length (media E) \<and>
               idx w < length (media E))) \<and>
         advance E u \<noteq> Inl IndexError \<and>
         (advance E u = Inl TimeoutExpired \<or>
          (\<exists>u'. advance E u = Inr u' \<and>
                idx u' = (idx u + 1) mod length (media E) \<and> idx u' < length (media E) \<and>
                shows_in (trace u') = shows_in (trace u) + 1)) \<and>
         (current_proc u = None \<longrightarrow>
            (\<exists>u'. advance E u = Inr u' \<and> idx u' = (idx u + 1) mod length (media E))) \<and>
         (length (media E) = 1 \<longrightarrow> advance E u = show_item E 0 (u\<lparr>idx := 0\<rparr>))"
proof -
  let ?N = "length (media E)"
  have pos: "0 < ?N"
    using assms by simp
  have run: "idx w = (shows_in (trace w) - 1) mod ?N \<and> idx w < ?N"
    if r: "main_run E t0 inps = Inr w" for w
  proof -
    from r assms obtain w0 where s: "show_item E 0 (initial t0) = Inr w0"
      and l: "main_loop E inps w0 = Inr w"
      by (auto simp: main_run_def main_start_def split: sum.splits)
    have i0: "idx w0 = 0" and n0: "shows_in (trace w0) = 1"
      using show_item_facts(2,5) [OF s] by (simp_all add: initial_def)
    from run_step_main_loop [OF l] obtain tr where tr: "trace w = trace w0 @ tr"
      and ix: "idx w = (idx w0 + (shows_in (trace w) - shows_in (trace w0))) mod ?N"
      using pos i0 by (auto simp: run_step_def)
    have "idx w = (shows_in (trace w) - 1) mod ?N"
      using ix i0 n0 by simp
    then show ?thesis
      using pos by simp
  qed
  have adv: "idx u' = (idx u + 1) mod ?N \<and> idx u' < ?N \<and>
      shows_in (trace u') = shows_in (trace u) + 1"
    if a: "advance E u = Inr u'" for u'
    using advance_facts(1,3) [OF a] pos by simp
  have 1: "main_run E t0 inps \<noteq> Inl IndexError"
    using main_run_ok [OF assms, of t0 inps] by (auto simp: timeout_or_ok_cases)
  have 2: "main_run E t0 inps = Inl TimeoutExpired \<or>
          (\<exists>w. main_run E t0 inps = Inr w \<and>
               idx w = (shows_in (trace w) - 1) mod ?N \<and> idx w < ?N)"
    using main_run_ok [OF assms, of t0 inps] run unfolding timeout_or_ok_cases by blast
  have 3: "advance E u \<noteq> Inl IndexError"
    using advance_ok [OF assms, of u] by (auto simp: timeout_or_ok_cases)
  have 4: "advance E u = Inl TimeoutExpired \<or>
          (\<exists>u'. advance E u = Inr u' \<and>
                idx u' = (idx u + 1) mod ?N \<and> idx u' < ?N \<and>
                shows_in (trace u') = shows_in (trace u) + 1)"
    using advance_ok [OF assms, of u] adv unfolding timeout_or_ok_cases by blast
  have 5: "current_proc u = None \<longrightarrow>
            (\<exists>u'. advance E u = Inr u' \<and> idx u' = (idx u + 1) mod ?N)"
    using advance_no_proc [OF assms, of u] adv by blast
  have 6: "?N = 1 \<longrightarrow> advance E u = show_item E 0 (u\<lparr>idx := 0\<rparr>)"
    by (simp add: advance_show)
  from 1 2 3 4 5 6 show ?thesis
    by (intro conjI)
qed

theorem C5_index_is_advances_mod_N_witness:
  "media demo_env \<noteq> [] \<and>
   main_run demo_env 0 three_taps = Inr around \<and>
   main_run demo_env 0 three_taps \<noteq> Inl IndexError \<and>
   shows_in (trace around) = 4 \<and> length (media demo_env) = 3 \<and>
   idx around = (4 - 1) mod 3 \<and> idx around = 0 \<and>
   idx (around\<lparr>idx := 2\<rparr>) = 2 \<and>
   advance demo_env (around\<lparr>idx := 2\<rparr>) =
     Inr (around\<lparr>idx := 0, current_proc := Some (clip1\<lparr>started := 5459\<rparr>),
            last_show_ms := 3959, clock := 5459,
            trace := trace around @
              [ShowCalled 0, Terminate (clip1\<lparr>started := 3926\<rparr>), Launch (args clip1)]\<rparr>) \<and>
   advance demo_env (around\<lparr>idx := 2\<rparr>) \<noteq> Inl IndexError \<and>
   current_proc fallback = None \<and>
   (\<exists>u'. advance noplayer_env fallback = Inr u' \<and> idx u' = 1)"
proof -
  let ?r = "around\<lparr>idx := 0, current_proc := Some (clip1\<lparr>started := 5459\<rparr>),
            last_show_ms := 3959, clock := 5459,
            trace := trace around @
              [ShowCalled 0, Terminate (clip1\<lparr>started := 3926\<rparr>), Launch (args clip1)]\<rparr>"
  have h: "media demo_env \<noteq> []" and hn: "media noplayer_env \<noteq> []"
    by code_simp+
  have r: "main_run demo_env 0 three_taps = Inr around"
    by code_simp
  have n: "shows_in (trace around) = 4" and l: "length (media demo_env) = 3"
    and ln: "length (media noplayer_env) = 3" and i0: "idx around = 0"
    and f: "current_proc fallback = None" and fi: "idx fallback = 0"
    by code_simp+
  have a: "advance demo_env (around\<lparr>idx := 2\<rparr>) = Inr ?r"
    by code_simp
  note c = C5_index_is_advances_mod_N [OF h, where ?t0.0 = 0 and inps = three_taps and u = "around\<lparr>idx := 2\<rparr>"]
  note d = C5_index_is_advances_mod_N [OF hn, where u = fallback]
  have 1: "main_run demo_env 0 three_taps \<noteq> Inl IndexError"
    using c by (rule conjunct1)
  have "idx around = (shows_in (trace around) - 1) mod length (media demo_env)"
    using c [THEN conjunct2, THEN conjunct1] unfolding r by simp
  then have 2: "idx around = (4 - 1) mod 3"
    unfolding n l .
  have 3: "advance demo_env (around\<lparr>idx := 2\<rparr>) \<noteq> Inl IndexError"
    using c [THEN conjunct2, THEN conjunct2, THEN conjunct1] .
  have "\<exists>u'. advance noplayer_env fallback = Inr u' \<and>
      idx u' = (idx fallback + 1) mod length (media noplayer_env)"
    using d [THEN conjunct2, THEN conjunct2, THEN conjunct2, THEN conjunct2, THEN conjunct1] f
    by (rule mp)
  then have 4: "\<exists>u'. advance noplayer_env fallback = Inr u' \<and> idx u' = 1"
    unfolding fi ln by simp
  have 5: "idx (around\<lparr>idx := 2\<rparr>) = 2"
    by simp
  show ?thesis
    by (intro conjI h r 1 n l 2 i0 5 a 3 f 4)
qed


section \<open>The time stamp of a transition\<close>




section \<open>The dwell window\<close>

text \<open>
  Claim C1, as the code has it. Every advance requested by the user, a finger or mouse
  press from the display layer or a token of the touch queue, is checked against the
  dwell window: when less than \<open>MIN_VIEW_MS\<close> = 1000 ms have passed since the stamp of
  the last transition the press is dropped, leaving a debug line and nothing else (no
  state in which it could wait or be retried), and a press that leads to a transition
  found at least 1000 ms on the clock since the last stamp. The advance on the end of
  a video is made without this check.
\<close>

theorem C1_user_presses_are_dwell_gated:
  "(clock w - last_show_ms w < MIN_VIEW_MS \<longrightarrow>
      handle_event E FINGERDOWN w = Inr (emit PressIgnored (emit (EventSeen FINGERDOWN) w)) \<and>
      handle_event E MOUSEBUTTONDOWN w =
        Inr (emit PressIgnored (emit (EventSeen MOUSEBUTTONDOWN) w)) \<and>
      drain_touch_queue E n w = Inr (w\<lparr>trace := trace w @ replicate n EvdevIgnored\<rparr>)) \<and>
   (pointer_down e \<and> handle_event E e w = Inr w' \<and>
    shows_in (trace w') \<noteq> shows_in (trace w) \<longrightarrow>
      MIN_VIEW_MS \<le> clock w - last_show_ms w \<and> last_show_ms w' = clock w) \<and>
   (drain_touch_queue E 1 w = Inr w' \<and> shows_in (trace w') \<noteq> shows_in (trace w) \<longrightarrow>
      MIN_VIEW_MS \<le> clock w - last_show_ms w \<and> last_show_ms w' = clock w) \<and>
   (current_proc w = Some p \<and> exited E p (clock w) \<longrightarrow>
      auto_advance E w = advance E (w\<lparr>current_proc := None, last_was_video := True\<rparr>))"
proof (intro conjI impI)
  assume d: "clock w - last_show_ms w < MIN_VIEW_MS"
  show "handle_event E FINGERDOWN w = Inr (emit PressIgnored (emit (EventSeen FINGERDOWN) w))"
    using d by (simp add: handle_event_def on_press_def emit_def Let_def)
  show "handle_event E MOUSEBUTTONDOWN w =
          Inr (emit PressIgnored (emit (EventSeen MOUSEBUTTONDOWN) w))"
    using d by (simp add: handle_event_def on_press_def emit_def Let_def)
  show "drain_touch_queue E n w = Inr (w\<lparr>trace := trace w @ replicate n EvdevIgnored\<rparr>)"
    using d
  proof (induction n arbitrary: w)
    case 0
    then show ?case by simp
  next
    case (Suc n)
    have "clock (emit EvdevIgnored w) - last_show_ms (emit EvdevIgnored w) < MIN_VIEW_MS"
      using Suc.prems by (simp add: emit_def)
    from Suc.IH [OF this] show ?case
      using Suc.prems by (simp add: on_press_def emit_def replicate_app_Cons_same)
  qed
next
  assume a: "pointer_down e \<and> handle_event E e w = Inr w' \<and>
             shows_in (trace w') \<noteq> shows_in (trace w)"
  then have p: "on_press E PressIgnored (emit (EventSeen e) w) = Inr w'"
    by (auto simp: pointer_down_def handle_event_def Let_def)
  have acc: "MIN_VIEW_MS \<le> clock w - last_show_ms w"
    using a p by (auto simp: on_press_def emit_def split: if_splits)
  then have "advance E (emit (EventSeen e) w) = Inr w'"
    using p by (simp add: on_press_def emit_def)
  from advance_facts(2) [OF this] acc
  show "MIN_VIEW_MS \<le> clock w - last_show_ms w" and "last_show_ms w' = clock w"
    by (simp_all add: emit_def)
next
  assume a: "drain_touch_queue E 1 w = Inr w' \<and> shows_in (trace w') \<noteq> shows_in (trace w)"
  then have p: "on_press E EvdevIgnored w = Inr w'"
    by (auto split: sum.splits)
  have acc: "MIN_VIEW_MS \<le> clock w - last_show_ms w"
    using a p by (auto simp: on_press_def emit_def split: if_splits)
  then have "advance E w = Inr w'"
    using p by (simp add: on_press_def)
  from advance_facts(2) [OF this] acc
  show "MIN_VIEW_MS \<le> clock w - last_show_ms w" and "last_show_ms w' = clock w"
    by simp_all
next
  assume "current_proc w = Some p \<and> exited E p (clock w)"
  then show "auto_advance E w = advance E (w\<lparr>current_proc := None, last_was_video := True\<rparr>)"
    by (simp add: auto_advance_def)
qed

theorem C1_user_presses_are_dwell_gated_witness:
  "clock started_clip - last_show_ms started_clip < MIN_VIEW_MS \<and>
   handle_event demo_env FINGERDOWN started_clip =
     Inr (emit PressIgnored (emit (EventSeen FINGERDOWN) started_clip)) \<and>
   drain_touch_queue demo_env 3 started_clip =
     Inr (started_clip\<lparr>trace := trace started_clip @ replicate 3 EvdevIgnored\<rparr>) \<and>
   pointer_down MOUSEBUTTONDOWN \<and>
   handle_event demo_env MOUSEBUTTONDOWN playing =
     Inr (after_tap\<lparr>trace := trace playing @ EventSeen MOUSEBUTTONDOWN #
                                drop (length (trace playing)) (trace after_tap)\<rparr>) \<and>
   MIN_VIEW_MS \<le> clock playing - last_show_ms playing \<and>
   drain_touch_queue demo_env 1 playing = Inr after_tap \<and>
   last_show_ms after_tap = clock playing \<and>
   current_proc short_done = Some clip1 \<and> exited short_env clip1 (clock short_done) \<and>
   auto_advance short_env short_done =
     advance short_env (short_done\<lparr>current_proc := None, last_was_video := True\<rparr>)"
proof -
  let ?m = "after_tap\<lparr>trace := trace playing @ EventSeen MOUSEBUTTONDOWN #
                                drop (length (trace playing)) (trace after_tap)\<rparr>"
  have h1: "clock started_clip - last_show_ms started_clip < MIN_VIEW_MS"
    by code_simp
  have h2: "pointer_down MOUSEBUTTONDOWN"
    by code_simp
  have h3: "handle_event demo_env MOUSEBUTTONDOWN playing = Inr ?m"
    by code_simp
  have h4: "shows_in (trace ?m) \<noteq> shows_in (trace playing)"
    by code_simp
  have h5: "drain_touch_queue demo_env 1 playing = Inr after_tap"
    by code_simp
  have h6: "shows_in (trace after_tap) \<noteq> shows_in (trace playing)"
    by code_simp
  have h7: "current_proc short_done = Some clip1"
    by code_simp
  have h8: "exited short_env clip1 (clock short_done)"
    by code_simp
  from C1_user_presses_are_dwell_gated [where w = started_clip and E = demo_env and n = 3]
  have a: "handle_event demo_env FINGERDOWN started_clip =
             Inr (emit PressIgnored (emit (EventSeen FINGERDOWN) started_clip))"
    "drain_touch_queue demo_env 3 started_clip =
       Inr (started_clip\<lparr>trace := trace started_clip @ replicate 3 EvdevIgnored\<rparr>)"
    using h1 by blast+
  from C1_user_presses_are_dwell_gated
    [where w = playing and E = demo_env and e = MOUSEBUTTONDOWN and w' = ?m]
  have b: "MIN_VIEW_MS \<le> clock playing - last_show_ms playing"
    using h2 h3 h4 by blast
  from C1_user_presses_are_dwell_gated [where w = playing and E = demo_env and w' = after_tap]
  have c: "last_show_ms after_tap = clock playing"
    using h5 h6 by blast
  from C1_user_presses_are_dwell_gated [where w = short_done and E = short_env and p = clip1]
  have d: "auto_advance short_env short_done =
     advance short_env (short_done\<lparr>current_proc := None, last_was_video := True\<rparr>)"
    using h7 h8 by blast
  show ?thesis
    using h1 h2 h3 h5 h7 h8 a b c d by blast
qed

text \<open>
  The claim as stated fails for the advance on the end of a video: a clip whose player
  exits after 300 ms is left 330 ms after it was shown, well inside the dwell window.
\<close>

theorem C1_auto_advance_inside_window_counterexample:
  "main_run short_env 0 (replicate 10 idle) = Inr short_done \<and>
   clock short_done - last_show_ms short_done = 330 \<and>
   clock short_done - last_show_ms short_done < MIN_VIEW_MS \<and>
   tick short_env idle short_done =
     Inr (short_done\<lparr>idx := 1, current_proc := None, last_was_video := False,
            last_show_ms := 330, screen := 1, clock := 413,
            trace := trace short_done @
              [ShowCalled 1, Blackout 50, ResetDisplay, DrawImage (MEDIA_DIR @ ''img1.png''),
               FrameTick]\<rparr>)"
  by code_simp

section \<open>Stopping a player that does not exit\<close>

text \<open>
  Claim C4 does not hold of the code. \<open>show\<close> calls \<open>current_proc.terminate()\<close> and then
  \<open>current_proc.wait(timeout=2)\<close>, which raises \<open>TimeoutExpired\<close> when the process is
  still there after two seconds. Nothing catches it: a tap on a clip whose player
  ignores the request ends \<open>show\<close>, the tick and the whole run with that exception.
\<close>

theorem C4_terminate_timeout_raises:
  "main_run stuck_env 0 (replicate 40 idle) = Inr playing \<and>
   exit_delay stuck_env clip1 (clock playing) = None \<and>
   stop_running stuck_env (enter_show 1 (playing\<lparr>idx := 1\<rparr>)) = Inl TimeoutExpired \<and>
   show_item stuck_env 1 (playing\<lparr>idx := 1\<rparr>) = Inl TimeoutExpired \<and>
   tick stuck_env tap playing = Inl TimeoutExpired \<and>
   main_run stuck_env 0 (replicate 40 idle @ [tap]) = Inl TimeoutExpired"
  by code_simp

section \<open>The reset of the rendering surface\<close>

text \<open>
  Claim C2 does not hold of the code. When a press arrives in the tick in which the
  player is found to have exited, the press is handled first: \<open>show\<close> sees a handle that
  is no longer running, leaves it in \<open>current_proc\<close> and draws the first image (with a
  reset, the previous item being the clip). The check for a finished video that follows
  in the same tick finds the stale handle, sets \<open>last_was_video\<close> and advances again:
  the second image is drawn after another reset, although the item before it was an
  image.
\<close>

theorem C2_reset_between_two_images:
  "main_run demo_env 0 (replicate 91 idle) = Inr clip_over \<and>
   tick demo_env tap clip_over =
     Inr (clip_over\<lparr>idx := 2, current_proc := None, last_was_video := False,
            last_show_ms := 3053, screen := 2, clock := 3136,
            trace := trace clip_over @
              [EventSeen FINGERDOWN,
               ShowCalled 1, Blackout 50, ResetDisplay, DrawImage (MEDIA_DIR @ ''img1.png''),
               ShowCalled 2, Blackout 50, ResetDisplay, DrawImage (MEDIA_DIR @ ''img2.png''),
               FrameTick]\<rparr>) \<and>
   ext_of (media demo_env ! 1) \<in> IMG_EXTS \<and> ext_of (media demo_env ! 2) \<in> IMG_EXTS"
  by code_simp

section \<open>Launching a player\<close>

text \<open>
  Claim C6. \<open>play_video\<close> takes the first of \<open>omxplayer\<close>, \<open>cvlc\<close> and \<open>mpv\<close> that
  \<open>shutil.which\<close> resolves, in this order, and starts it on the path. When none is
  resolved it returns no handle and raises nothing. \<open>show\<close> then blanks the screen and
  fills it black, leaves \<open>current_proc\<close> empty and the index where it is, starts no
  process, and sets \<open>last_was_video\<close>: showing an image next resets the surface before the
  image is drawn.
\<close>

theorem C6_player_priority_and_spawn_failure:
  "(which E ''omxplayer'' \<longrightarrow>
      player_cmd E path = Some [''omxplayer'', ''--no-osd'', ''--aspect-mode'', ''fill'', path]) \<and>
   (\<not> which E ''omxplayer'' \<and> which E ''cvlc'' \<longrightarrow>
      player_cmd E path =
        Some [''cvlc'', ''--fullscreen'', ''--no-video-title-show'', ''--play-and-exit'', path]) \<and>
   (\<not> which E ''omxplayer'' \<and> \<not> which E ''cvlc'' \<and> which E ''mpv'' \<longrightarrow>
      player_cmd E path = Some [''mpv'', ''--fs'', ''--quiet'', path]) \<and>
   (player_cmd E path = Some cmd \<longrightarrow>
      play_video E path w = (Some \<lparr>args = cmd, started = clock w\<rparr>, emit (Launch cmd) w)) \<and>
   (no_player E \<longrightarrow> play_video E path w = (None, emit NoPlayer w)) \<and>
   (no_player E \<and> i < length (media E) \<and> ext_of (media E ! i) \<notin> IMG_EXTS \<and>
    stop_running E (enter_show i w) = Inr w2 \<longrightarrow>
      show_item E i w =
        Inr (w2\<lparr>trace := trace w2 @ [NoPlayer, Blackout 50, FillBlack], clock := clock w2 + 50,
               current_proc := None, last_was_video := True\<rparr>)) \<and>
   (no_player E \<and> ext_of (media E ! i) \<notin> IMG_EXTS \<and> show_item E i w = Inr w' \<and>
    j < length (media E) \<and> ext_of (media E ! j) \<in> IMG_EXTS \<longrightarrow>
      current_proc w' = None \<and> last_was_video w' \<and> idx w' = idx w \<and>
      show_item E j w' =
        Inr (w'\<lparr>trace := trace w' @
                    [ShowCalled j, Blackout 50, ResetDisplay,
                     if image_ok E (media E ! j) then DrawImage (media E ! j)
                     else ErrorFrame (media E ! j)],
               last_show_ms := clock w', clock := clock w' + 50, screen := Suc (screen w'),
               last_was_video := False\<rparr>))"
proof (intro conjI impI)
  show "which E ''omxplayer'' \<Longrightarrow>
      player_cmd E path = Some [''omxplayer'', ''--no-osd'', ''--aspect-mode'', ''fill'', path]"
    by (simp add: player_cmd_def)
  show "\<not> which E ''omxplayer'' \<and> which E ''cvlc'' \<Longrightarrow>
      player_cmd E path =
        Some [''cvlc'', ''--fullscreen'', ''--no-video-title-show'', ''--play-and-exit'', path]"
    by (simp add: player_cmd_def)
  show "\<not> which E ''omxplayer'' \<and> \<not> which E ''cvlc'' \<and> which E ''mpv'' \<Longrightarrow>
      player_cmd E path = Some [''mpv'', ''--fs'', ''--quiet'', path]"
    by (simp add: player_cmd_def)
  show "player_cmd E path = Some cmd \<Longrightarrow>
      play_video E path w = (Some \<lparr>args = cmd, started = clock w\<rparr>, emit (Launch cmd) w)"
    by (simp add: play_video_def)
  show "no_player E \<Longrightarrow> play_video E path w = (None, emit NoPlayer w)"
    by (simp add: play_video_def player_cmd_none)
next
  assume a: "no_player E \<and> i < length (media E) \<and> ext_of (media E ! i) \<notin> IMG_EXTS \<and>
    stop_running E (enter_show i w) = Inr w2"
  then show "show_item E i w =
        Inr (w2\<lparr>trace := trace w2 @ [NoPlayer, Blackout 50, FillBlack], clock := clock w2 + 50,
               current_proc := None, last_was_video := True\<rparr>)"
    by (simp add: show_item_unfold show_video_no_player)
next
  assume a: "no_player E \<and> ext_of (media E ! i) \<notin> IMG_EXTS \<and> show_item E i w = Inr w' \<and>
    j < length (media E) \<and> ext_of (media E ! j) \<in> IMG_EXTS"
  then have lt: "i < length (media E)"
    using show_item_out_of_range [of i E w] by fastforce
  from a obtain w2 where w': "w' = show_video E (media E ! i) w2"
    by (auto simp: show_item_unfold [OF lt] split: sum.splits)
  have np: "current_proc w' = None" and lv: "last_was_video w'"
    using a unfolding w' by (simp_all add: show_video_no_player)
  show "current_proc w' = None" and "last_was_video w'"
    by (fact np, fact lv)
  show "idx w' = idx w"
    using a show_item_facts(2) by blast
  have "stop_running E (enter_show j w') = Inr (enter_show j w')"
    using np by (simp add: stop_running_no_proc)
  then show "show_item E j w' =
        Inr (w'\<lparr>trace := trace w' @
                    [ShowCalled j, Blackout 50, ResetDisplay,
                     if image_ok E (media E ! j) then DrawImage (media E ! j)
                     else ErrorFrame (media E ! j)],
               last_show_ms := clock w', clock := clock w' + 50, screen := Suc (screen w'),
               last_was_video := False\<rparr>)"
    using a lv by (simp add: show_item_unfold show_image_after_video enter_show_def emit_def)
qed

theorem C6_player_priority_and_spawn_failure_witness:
  "which (demo_env\<lparr>which := (\<lambda>n. True)\<rparr>) ''omxplayer'' \<and>
   player_cmd (demo_env\<lparr>which := (\<lambda>n. True)\<rparr>) ''/v.mp4'' =
     Some [''omxplayer'', ''--no-osd'', ''--aspect-mode'', ''fill'', ''/v.mp4''] \<and>
   which (demo_env\<lparr>which := (\<lambda>n. n \<noteq> ''omxplayer'')\<rparr>) ''cvlc'' \<and>
   player_cmd (demo_env\<lparr>which := (\<lambda>n. n \<noteq> ''omxplayer'')\<rparr>) ''/v.mp4'' =
     Some [''cvlc'', ''--fullscreen'', ''--no-video-title-show'', ''--play-and-exit'', ''/v.mp4''] \<and>
   which demo_env ''mpv'' \<and>
   player_cmd demo_env ''/v.mp4'' = Some [''mpv'', ''--fs'', ''--quiet'', ''/v.mp4''] \<and>
   play_video demo_env ''/v.mp4'' (initial 7) =
     (Some \<lparr>args = [''mpv'', ''--fs'', ''--quiet'', ''/v.mp4''], started = 7\<rparr>,
      emit (Launch [''mpv'', ''--fs'', ''--quiet'', ''/v.mp4'']) (initial 7)) \<and>
   no_player noplayer_env \<and>
   play_video noplayer_env ''/v.mp4'' (initial 0) = (None, emit NoPlayer (initial 0)) \<and>
   show_item noplayer_env 0 (initial 0) = Inr fallback \<and>
   current_proc fallback = None \<and> last_was_video fallback \<and>
   show_item noplayer_env 1 fallback =
     Inr (fallback\<lparr>trace := trace fallback @
                    [ShowCalled 1, Blackout 50, ResetDisplay,
                     DrawImage (MEDIA_DIR @ ''img1.png'')],
            last_show_ms := 50, clock := 100, screen := 1, last_was_video := False\<rparr>)"
proof -
  let ?E1 = "demo_env\<lparr>which := (\<lambda>n. True)\<rparr>"
  let ?E2 = "demo_env\<lparr>which := (\<lambda>n. n \<noteq> ''omxplayer'')\<rparr>"
  have o: "which ?E1 ''omxplayer''"
    by code_simp
  have v: "\<not> which ?E2 ''omxplayer'' \<and> which ?E2 ''cvlc''"
    by code_simp
  have m: "\<not> which demo_env ''omxplayer'' \<and> \<not> which demo_env ''cvlc'' \<and> which demo_env ''mpv''"
    by code_simp
  have n: "no_player noplayer_env"
    by code_simp
  have k: "0 < length (media noplayer_env)" "ext_of (media noplayer_env ! 0) \<notin> IMG_EXTS"
    "1 < length (media noplayer_env)" "ext_of (media noplayer_env ! 1) \<in> IMG_EXTS"
    by code_simp+
  have s: "stop_running noplayer_env (enter_show 0 (initial 0)) = Inr (enter_show 0 (initial 0))"
    by code_simp
  have f: "enter_show 0 (initial 0)
             \<lparr>trace := trace (enter_show 0 (initial 0)) @ [NoPlayer, Blackout 50, FillBlack],
              clock := clock (enter_show 0 (initial 0)) + 50,
              current_proc := None, last_was_video := True\<rparr> = fallback"
    by code_simp
  have i: "image_ok noplayer_env (MEDIA_DIR @ ''img1.png'')"
    "media noplayer_env ! 1 = MEDIA_DIR @ ''img1.png''" "clock fallback = 50"
    "Suc (screen fallback) = 1"
    by code_simp+
  note c = C6_player_priority_and_spawn_failure
  note c1 = c [THEN conjunct1, rule_format]
  note c2 = c [THEN conjunct2, THEN conjunct1, rule_format]
  note c3 = c [THEN conjunct2, THEN conjunct2, THEN conjunct1, rule_format]
  note c4 = c [THEN conjunct2, THEN conjunct2, THEN conjunct2, THEN conjunct1, rule_format]
  note c5 = c [THEN conjunct2, THEN conjunct2, THEN conjunct2, THEN conjunct2, THEN conjunct1,
      rule_format]
  note c6 = c [THEN conjunct2, THEN conjunct2, THEN conjunct2, THEN conjunct2, THEN conjunct2,
      THEN conjunct1, rule_format]
  have 1: "player_cmd ?E1 ''/v.mp4'' =
     Some [''omxplayer'', ''--no-osd'', ''--aspect-mode'', ''fill'', ''/v.mp4'']"
    using o by (rule c1)
  have 2: "player_cmd ?E2 ''/v.mp4'' =
     Some [''cvlc'', ''--fullscreen'', ''--no-video-title-show'', ''--play-and-exit'', ''/v.mp4'']"
    using v by (rule c2)
  have 3: "player_cmd demo_env ''/v.mp4'' = Some [''mpv'', ''--fs'', ''--quiet'', ''/v.mp4'']"
    using m by (rule c3)
  have 4: "play_video demo_env ''/v.mp4'' (initial 7) =
     (Some \<lparr>args = [''mpv'', ''--fs'', ''--quiet'', ''/v.mp4''], started = clock (initial 7)\<rparr>,
      emit (Launch [''mpv'', ''--fs'', ''--quiet'', ''/v.mp4'']) (initial 7))"
    using 3 by (rule c4)
  have 5: "play_video noplayer_env ''/v.mp4'' (initial 0) = (None, emit NoPlayer (initial 0))"
    using n by (rule c5)
  have "show_item noplayer_env 0 (initial 0) =
          Inr (enter_show 0 (initial 0)
             \<lparr>trace := trace (enter_show 0 (initial 0)) @ [NoPlayer, Blackout 50, FillBlack],
              clock := clock (enter_show 0 (initial 0)) + 50,
              current_proc := None, last_was_video := True\<rparr>)"
    by (rule c6) (intro conjI n k s)
  then have 6: "show_item noplayer_env 0 (initial 0) = Inr fallback"
    unfolding f .
  have 7: "current_proc fallback = None \<and> last_was_video fallback \<and> idx fallback = idx (initial 0) \<and>
     show_item noplayer_env 1 fallback =
       Inr (fallback\<lparr>trace := trace fallback @
                    [ShowCalled 1, Blackout 50, ResetDisplay,
                     if image_ok noplayer_env (media noplayer_env ! 1)
                     then DrawImage (media noplayer_env ! 1)
                     else ErrorFrame (media noplayer_env ! 1)],
            last_show_ms := clock fallback, clock := clock fallback + 50,
            screen := Suc (screen fallback), last_was_video := False\<rparr>)"
    by (rule c [where i = 0 and w = "initial 0", THEN conjunct2, THEN conjunct2, THEN conjunct2,
          THEN conjunct2, THEN conjunct2, THEN conjunct2, rule_format])
       (intro conjI n k 6)
  have 8: "show_item noplayer_env 1 fallback =
     Inr (fallback\<lparr>trace := trace fallback @
                    [ShowCalled 1, Blackout 50, ResetDisplay,
                     DrawImage (MEDIA_DIR @ ''img1.png'')],
            last_show_ms := 50, clock := 100, screen := 1, last_was_video := False\<rparr>)"
    using 7 [THEN conjunct2, THEN conjunct2, THEN conjunct2] unfolding i(2,3,4) by (simp add: i(1))
  have t7: "clock (initial 7) = 7"
    by code_simp
  show ?thesis
    by (intro conjI o 1 2 3 5 6 8 n v [THEN conjunct2] m [THEN conjunct2, THEN conjunct2]
          4 [unfolded t7] 7 [THEN conjunct1] 7 [THEN conjunct2, THEN conjunct1])
qed

section \<open>The order of work within a tick\<close>

text \<open>
  Claim C3, as the code has it. A tick handles the pending events of the display layer
  first, then checks whether the video has finished, then drains the touch queue, then
  waits for the frame: its trace is made of three parts in this order, followed by the
  frame tick. The first holds event lines, ignored presses and the effects of \<open>show\<close>; the
  second nothing but the effects of at most one \<open>show\<close>; the third ignored tokens and
  the effects of \<open>show\<close>. Each press is checked on its own, and the number of transitions
  in a tick is bounded by the number of presses among the events, plus one for the
  finished video, plus the number of tokens; no other bound is kept.
\<close>

theorem C3_tick_order:
  "tick E inp w = Inr w' \<longrightarrow>
     (\<exists>w1 w2 w3 A B C.
        handle_events E (events inp) w = Inr w1 \<and> trace w1 = trace w @ A \<and>
        auto_advance E w1 = Inr w2 \<and> trace w2 = trace w1 @ B \<and>
        drain_touch_queue E (touches inp) w2 = Inr w3 \<and> trace w3 = trace w2 @ C \<and>
        w' = frame_tick (frame_ms inp) w3 \<and>
        trace w' = trace w @ A @ B @ C @ [FrameTick] \<and>
        list_all events_effect A \<and> list_all show_effect B \<and> list_all queue_effect C \<and>
        shows_in A \<le> length (filter pointer_down (events inp)) \<and> shows_in B \<le> 1 \<and>
        shows_in C \<le> touches inp)"
proof
  assume "tick E inp w = Inr w'"
  then show "\<exists>w1 w2 w3 A B C.
        handle_events E (events inp) w = Inr w1 \<and> trace w1 = trace w @ A \<and>
        auto_advance E w1 = Inr w2 \<and> trace w2 = trace w1 @ B \<and>
        drain_touch_queue E (touches inp) w2 = Inr w3 \<and> trace w3 = trace w2 @ C \<and>
        w' = frame_tick (frame_ms inp) w3 \<and>
        trace w' = trace w @ A @ B @ C @ [FrameTick] \<and>
        list_all events_effect A \<and> list_all show_effect B \<and> list_all queue_effect C \<and>
        shows_in A \<le> length (filter pointer_down (events inp)) \<and> shows_in B \<le> 1 \<and>
        shows_in C \<le> touches inp"
    by (rule tick_structure)
qed

theorem C3_tick_order_witness:
  "tick demo_env token clip_over = Inr (frame_tick 33 (emit EvdevIgnored after_clip)) \<and>
   (\<exists>w1 w2 w3 A B C.
      handle_events demo_env (events token) clip_over = Inr w1 \<and>
      trace w1 = trace clip_over @ A \<and>
      auto_advance demo_env w1 = Inr w2 \<and> trace w2 = trace w1 @ B \<and>
      drain_touch_queue demo_env (touches token) w2 = Inr w3 \<and> trace w3 = trace w2 @ C \<and>
      frame_tick 33 (emit EvdevIgnored after_clip) = frame_tick (frame_ms token) w3 \<and>
      trace (frame_tick 33 (emit EvdevIgnored after_clip)) =
        trace clip_over @ A @ B @ C @ [FrameTick] \<and>
      list_all events_effect A \<and> list_all show_effect B \<and> list_all queue_effect C \<and>
      shows_in A \<le> length (filter pointer_down (events token)) \<and> shows_in B \<le> 1 \<and>
      shows_in C \<le> touches token)"
proof -
  have h: "tick demo_env token clip_over = Inr (frame_tick 33 (emit EvdevIgnored after_clip))"
    by code_simp
  note c = C3_tick_order [where E = demo_env and inp = token and w = clip_over
      and w' = "frame_tick 33 (emit EvdevIgnored after_clip)", THEN mp, OF h]
  show ?thesis
    by (rule conjI [OF h c])
qed

text \<open>
  The claim as stated fails on both counts. With a finished clip and one token in the
  queue, the finished video is handled first and the token after it: the token is
  ignored, since the transition just made restarted the dwell window (handled before
  the check, it would have been accepted). And one tick can make two transitions: a
  single touch that the display layer reports as a finger press and as a mouse press
  ends the running clip, which takes 1500 ms to exit, so that the second press finds the
  dwell window over and skips the first image.
\<close>

theorem C3_order_and_two_transitions_counterexample:
  "auto_advance demo_env clip_over = Inr after_clip \<and>
   MIN_VIEW_MS \<le> clock clip_over - last_show_ms clip_over \<and>
   tick demo_env token clip_over =
     Inr (clip_over\<lparr>idx := 1, current_proc := None, last_was_video := False,
            last_show_ms := 3003, screen := 1, clock := 3086,
            trace := trace clip_over @
              [ShowCalled 1, Blackout 50, ResetDisplay, DrawImage (MEDIA_DIR @ ''img1.png''),
               EvdevIgnored, FrameTick]\<rparr>) \<and>
   tick demo_env touch playing =
     Inr (playing\<lparr>idx := 2, current_proc := None, last_was_video := False,
            last_show_ms := 2870, screen := 1, clock := 2903,
            trace := trace playing @
              [EventSeen FINGERDOWN, ShowCalled 1, Terminate clip1, Blackout 50, ResetDisplay,
               DrawImage (MEDIA_DIR @ ''img1.png''),
               EventSeen MOUSEBUTTONDOWN, ShowCalled 2, DrawImage (MEDIA_DIR @ ''img2.png''),
               FrameTick]\<rparr>)"
  by code_simp

section \<open>A video whose player could not be started\<close>

text \<open>
  Claim C8. After \<open>show\<close> has failed to start a player there is no process handle, and the
  check for a finished video does nothing. However many ticks pass without a press,
  and however long they take, the run goes on with the same index, no handle and no
  rendering at all, the fallback frame staying on the screen. As long as no transition
  has been made the handle stays empty, within a tick as well as between ticks, so that
  a transition away from the item can only start from a press; and a press that finds
  the dwell window over does advance.
\<close>

theorem C8_spawn_failure_waits_for_press:
  "no_player E \<and> ext_of (media E ! i) \<notin> IMG_EXTS \<and> show_item E i w = Inr w' \<longrightarrow>
     current_proc w' = None \<and> auto_advance E w' = Inr w' \<and>
     (\<forall>inps. list_all quiet inps \<longrightarrow> (\<exists>u. main_loop E inps w' = Inr u \<and> still w' u)) \<and>
     (\<forall>inps u. main_loop E inps w' = Inr u \<and> shows_in (trace u) = shows_in (trace w') \<longrightarrow>
        current_proc u = None \<and> idx u = idx w' \<and> auto_advance E u = Inr u) \<and>
     (\<forall>es u1. handle_events E es w' = Inr u1 \<and> shows_in (trace u1) = shows_in (trace w') \<longrightarrow>
        auto_advance E u1 = Inr u1) \<and>
     (\<forall>u. MIN_VIEW_MS \<le> clock u - last_show_ms u \<longrightarrow>
        drain_touch_queue E 1 u = advance E u \<and>
        handle_event E FINGERDOWN u = advance E (emit (EventSeen FINGERDOWN) u) \<and>
        handle_event E MOUSEBUTTONDOWN u = advance E (emit (EventSeen MOUSEBUTTONDOWN) u))"
proof (intro impI)
  assume a: "no_player E \<and> ext_of (media E ! i) \<notin> IMG_EXTS \<and> show_item E i w = Inr w'"
  then have lt: "i < length (media E)"
    using show_item_out_of_range [of i E w] by fastforce
  from a obtain w2 where "w' = show_video E (media E ! i) w2"
    by (auto simp: show_item_unfold [OF lt] split: sum.splits)
  then have np: "current_proc w' = None"
    using a by (simp add: show_video_no_player)
  have 2: "\<forall>inps. list_all quiet inps \<longrightarrow> (\<exists>u. main_loop E inps w' = Inr u \<and> still w' u)"
    using main_loop_quiet [OF _ np] by blast
  have 3: "\<forall>inps u. main_loop E inps w' = Inr u \<and> shows_in (trace u) = shows_in (trace w') \<longrightarrow>
        current_proc u = None \<and> idx u = idx w' \<and> auto_advance E u = Inr u"
  proof (intro allI impI)
    fix inps u
    assume "main_loop E inps w' = Inr u \<and> shows_in (trace u) = shows_in (trace w')"
    then have "current_proc u = None \<and> idx u = idx w'"
      using run_step_main_loop [of E inps w' u] np by (simp add: run_step_def)
    then show "current_proc u = None \<and> idx u = idx w' \<and> auto_advance E u = Inr u"
      by (simp add: auto_advance_no_proc)
  qed
  have 4: "\<forall>es u1. handle_events E es w' = Inr u1 \<and> shows_in (trace u1) = shows_in (trace w') \<longrightarrow>
        auto_advance E u1 = Inr u1"
  proof (intro allI impI)
    fix es u1
    assume "handle_events E es w' = Inr u1 \<and> shows_in (trace u1) = shows_in (trace w')"
    then have "current_proc u1 = None"
      using run_step_handle_events [of E es w' u1] np by (simp add: run_step_def)
    then show "auto_advance E u1 = Inr u1"
      by (rule auto_advance_no_proc)
  qed
  have 5: "\<forall>u. MIN_VIEW_MS \<le> clock u - last_show_ms u \<longrightarrow>
        drain_touch_queue E 1 u = advance E u \<and>
        handle_event E FINGERDOWN u = advance E (emit (EventSeen FINGERDOWN) u) \<and>
        handle_event E MOUSEBUTTONDOWN u = advance E (emit (EventSeen MOUSEBUTTONDOWN) u)"
  proof (intro allI impI conjI)
    fix u :: world
    assume d: "MIN_VIEW_MS \<le> clock u - last_show_ms u"
    show "drain_touch_queue E 1 u = advance E u"
      unfolding drain_one using d by (simp add: on_press_def)
    show "handle_event E FINGERDOWN u = advance E (emit (EventSeen FINGERDOWN) u)"
      using d by (simp add: handle_event_def on_press_def Let_def emit_def)
    show "handle_event E MOUSEBUTTONDOWN u = advance E (emit (EventSeen MOUSEBUTTONDOWN) u)"
      using d by (simp add: handle_event_def on_press_def Let_def emit_def)
  qed
  from np 2 3 4 5 show "current_proc w' = None \<and> auto_advance E w' = Inr w' \<and>
     (\<forall>inps. list_all quiet inps \<longrightarrow> (\<exists>u. main_loop E inps w' = Inr u \<and> still w' u)) \<and>
     (\<forall>inps u. main_loop E inps w' = Inr u \<and> shows_in (trace u) = shows_in (trace w') \<longrightarrow>
        current_proc u = None \<and> idx u = idx w' \<and> auto_advance E u = Inr u) \<and>
     (\<forall>es u1. handle_events E es w' = Inr u1 \<and> shows_in (trace u1) = shows_in (trace w') \<longrightarrow>
        auto_advance E u1 = Inr u1) \<and>
     (\<forall>u. MIN_VIEW_MS \<le> clock u - last_show_ms u \<longrightarrow>
        drain_touch_queue E 1 u = advance E u \<and>
        handle_event E FINGERDOWN u = advance E (emit (EventSeen FINGERDOWN) u) \<and>
        handle_event E MOUSEBUTTONDOWN u = advance E (emit (EventSeen MOUSEBUTTONDOWN) u))"
    by (simp add: auto_advance_no_proc)
qed

theorem C8_spawn_failure_waits_for_press_witness:
  "no_player noplayer_env \<and> ext_of (media noplayer_env ! 0) \<notin> IMG_EXTS \<and>
   show_item noplayer_env 0 (initial 0) = Inr fallback \<and>
   current_proc fallback = None \<and> auto_advance noplayer_env fallback = Inr fallback \<and>
   list_all quiet (replicate 100 idle) \<and>
   main_loop noplayer_env (replicate 100 idle) fallback = Inr fallback_later \<and>
   still fallback fallback_later \<and>
   shows_in (trace fallback_later) = shows_in (trace fallback) \<and>
   auto_advance noplayer_env fallback_later = Inr fallback_later \<and>
   MIN_VIEW_MS \<le> clock fallback_later - last_show_ms fallback_later \<and>
   drain_touch_queue noplayer_env 1 fallback_later = advance noplayer_env fallback_later"
proof -
  have h: "no_player noplayer_env \<and> ext_of (media noplayer_env ! 0) \<notin> IMG_EXTS \<and>
      show_item noplayer_env 0 (initial 0) = Inr fallback"
    by code_simp
  have q: "list_all quiet (replicate 100 idle)"
    by code_simp
  have m: "main_loop noplayer_env (replicate 100 idle) fallback = Inr fallback_later"
    by code_simp
  have s: "shows_in (trace fallback_later) = shows_in (trace fallback)"
    by code_simp
  have d: "MIN_VIEW_MS \<le> clock fallback_later - last_show_ms fallback_later"
    by code_simp
  note c = C8_spawn_failure_waits_for_press
    [where E = noplayer_env and i = 0 and w = "initial 0" and w' = fallback, THEN mp, OF h]
  have 1: "current_proc fallback = None" "auto_advance noplayer_env fallback = Inr fallback"
    using c by blast+
  have "\<exists>u. main_loop noplayer_env (replicate 100 idle) fallback = Inr u \<and> still fallback u"
    using c q by blast
  then have 2: "still fallback fallback_later"
    unfolding m by simp
  have 3: "auto_advance noplayer_env fallback_later = Inr fallback_later"
    using c m s by blast
  have 4: "drain_touch_queue noplayer_env 1 fallback_later = advance noplayer_env fallback_later"
    using c d by blast
  show ?thesis
    using h q m s d 1 2 3 4 by blast
qed

section \<open>The catalog\<close>

text \<open>
  Claim C9. The catalog does not depend on the order in which the directory is listed:
  two listings with the same entries give the same catalog. The file names it is built
  from are the supported entries of the listing, each as often as it is listed, in
  ascending lexicographic order; every path of the catalog is absolute; and for entries
  without a separator, as a directory listing has them, the paths are the directory
  followed by the name, themselves in ascending order.
\<close>

theorem C9_catalog_order_is_deterministic:
  "(mset listing' = mset listing \<longrightarrow> load_media_list listing' = load_media_list listing) \<and>
   (\<exists>fs. load_media_list listing = map (path_join MEDIA_DIR) fs \<and> sorted fs \<and>
         mset fs = filter_mset supported (mset listing)) \<and>
   (\<forall>p\<in>set (load_media_list listing). p \<noteq> [] \<and> hd p = CHR ''/'') \<and>
   ((\<forall>f\<in>set listing. CHR ''/'' \<notin> set f) \<longrightarrow>
      load_media_list listing = map ((@) MEDIA_DIR) (filter supported (sort listing)) \<and>
      sorted (load_media_list listing))"
proof (intro conjI impI)
  show "mset listing' = mset listing \<Longrightarrow> load_media_list listing' = load_media_list listing"
    by (rule load_media_list_perm)
  show "\<exists>fs. load_media_list listing = map (path_join MEDIA_DIR) fs \<and> sorted fs \<and>
         mset fs = filter_mset supported (mset listing)"
    using load_media_list_names [of listing] unfolding load_media_list_def by blast
  show "\<forall>p\<in>set (load_media_list listing). p \<noteq> [] \<and> hd p = CHR ''/''"
    unfolding load_media_list_def using path_join_absolute by auto
next
  assume a: "\<forall>f\<in>set listing. CHR ''/'' \<notin> set f"
  show "load_media_list listing = map ((@) MEDIA_DIR) (filter supported (sort listing))"
    using a by (rule load_media_list_plain)
  then show "sorted (load_media_list listing)"
    using load_media_list_names(1) [of listing] by (simp add: sorted_prefixed)
qed

theorem C9_catalog_order_is_deterministic_witness:
  "mset [''clip1.mp4'', ''img1.png'', ''img2.png'', ''notes.txt''] =
     mset [''img2.png'', ''notes.txt'', ''clip1.mp4'', ''img1.png''] \<and>
   load_media_list [''clip1.mp4'', ''img1.png'', ''img2.png'', ''notes.txt''] =
     load_media_list [''img2.png'', ''notes.txt'', ''clip1.mp4'', ''img1.png''] \<and>
   load_media_list [''img2.png'', ''notes.txt'', ''clip1.mp4'', ''img1.png''] =
     [MEDIA_DIR @ ''clip1.mp4'', MEDIA_DIR @ ''img1.png'', MEDIA_DIR @ ''img2.png''] \<and>
   sorted (load_media_list [''img2.png'', ''notes.txt'', ''clip1.mp4'', ''img1.png'']) \<and>
   MEDIA_DIR @ ''clip1.mp4'' \<noteq> [] \<and> hd (MEDIA_DIR @ ''clip1.mp4'') = CHR ''/''"
proof -
  let ?a = "[''clip1.mp4'', ''img1.png'', ''img2.png'', ''notes.txt'']"
  let ?b = "[''img2.png'', ''notes.txt'', ''clip1.mp4'', ''img1.png'']"
  have m: "mset ?a = mset ?b"
    by (simp add: add.commute add.left_commute)
  have n: "\<forall>f\<in>set ?b. CHR ''/'' \<notin> set f"
    by simp
  have v: "load_media_list ?b =
     [MEDIA_DIR @ ''clip1.mp4'', MEDIA_DIR @ ''img1.png'', MEDIA_DIR @ ''img2.png'']"
    by code_simp
  note c = C9_catalog_order_is_deterministic [where listing = ?b and listing' = ?a]
  have 1: "load_media_list ?a = load_media_list ?b"
    using c m by blast
  have 2: "sorted (load_media_list ?b)"
    using c n by blast
  have "MEDIA_DIR @ ''clip1.mp4'' \<in> set (load_media_list ?b)"
    unfolding v by simp
  with c have 3: "MEDIA_DIR @ ''clip1.mp4'' \<noteq> [] \<and> hd (MEDIA_DIR @ ''clip1.mp4'') = CHR ''/''"
    by blast
  show ?thesis
    using m 1 v 2 3 by blast
qed

text \<open>
  Claim C10. The two sets of extensions are disjoint. A listed file is in the catalog
  exactly when its extension, in lower case, is in one of them, and every path of the
  catalog has its extension in exactly one. \<open>show\<close> computes the extension of the path in
  the same way and has two branches only: the image branch when the extension is an
  image extension, the video branch otherwise, which for an item of the catalog means
  that it is a video extension. Names that differ in the case of their letters only
  have the same extension and the same classification.
\<close>

theorem C10_classification_is_binary:
  "IMG_EXTS \<inter> VID_EXTS = {} \<and>
   (f \<in> set listing \<longrightarrow>
      (path_join MEDIA_DIR f \<in> set (load_media_list listing) \<longleftrightarrow>
       ext_of f \<in> IMG_EXTS \<union> VID_EXTS)) \<and>
   (p \<in> set (load_media_list listing) \<longrightarrow>
      (ext_of p \<in> IMG_EXTS \<and> ext_of p \<notin> VID_EXTS) \<or>
      (ext_of p \<in> VID_EXTS \<and> ext_of p \<notin> IMG_EXTS)) \<and>
   (media E = load_media_list listing \<and> i < length (media E) \<longrightarrow>
      (ext_of (media E ! i) \<in> IMG_EXTS \<and>
       show_item E i w =
         (case stop_running E (enter_show i w) of
            Inl e \<Rightarrow> Inl e
          | Inr w2 \<Rightarrow> Inr (show_image E (media E ! i) w2))) \<or>
      (ext_of (media E ! i) \<in> VID_EXTS \<and>
       show_item E i w =
         (case stop_running E (enter_show i w) of
            Inl e \<Rightarrow> Inl e
          | Inr w2 \<Rightarrow> Inr (show_video E (media E ! i) w2)))) \<and>
   (lower a = lower b \<longrightarrow> ext_of a = ext_of b \<and> supported a = supported b)"
proof (intro conjI impI)
  show "IMG_EXTS \<inter> VID_EXTS = {}"
    by (rule exts_disjoint)
next
  assume f: "f \<in> set listing"
  show "path_join MEDIA_DIR f \<in> set (load_media_list listing) \<longleftrightarrow>
        ext_of f \<in> IMG_EXTS \<union> VID_EXTS"
  proof
    assume "path_join MEDIA_DIR f \<in> set (load_media_list listing)"
    from load_media_list_ext [OF this] show "ext_of f \<in> IMG_EXTS \<union> VID_EXTS"
      by (simp add: ext_of_path_join)
  next
    assume "ext_of f \<in> IMG_EXTS \<union> VID_EXTS"
    then have "f \<in> set (filter supported (sort listing))"
      using f by (simp add: supported_def)
    then show "path_join MEDIA_DIR f \<in> set (load_media_list listing)"
      unfolding load_media_list_def by (simp only: set_map) (rule imageI)
  qed
next
  assume "p \<in> set (load_media_list listing)"
  from load_media_list_ext [OF this] exts_disjoint
  show "(ext_of p \<in> IMG_EXTS \<and> ext_of p \<notin> VID_EXTS) \<or>
        (ext_of p \<in> VID_EXTS \<and> ext_of p \<notin> IMG_EXTS)"
    by blast
next
  assume a: "media E = load_media_list listing \<and> i < length (media E)"
  then have "media E ! i \<in> set (load_media_list listing)"
    by (metis nth_mem)
  from load_media_list_ext [OF this] have "ext_of (media E ! i) \<notin> IMG_EXTS \<longrightarrow>
      ext_of (media E ! i) \<in> VID_EXTS"
    by blast
  then have v: "ext_of (media E ! i) \<notin> IMG_EXTS \<Longrightarrow> ext_of (media E ! i) \<in> VID_EXTS"
    by simp
  from a have lt: "i < length (media E)"
    by (rule conjunct2)
  note su = show_item_unfold [OF lt, of w]
  show "(ext_of (media E ! i) \<in> IMG_EXTS \<and>
       show_item E i w =
         (case stop_running E (enter_show i w) of
            Inl e \<Rightarrow> Inl e
          | Inr w2 \<Rightarrow> Inr (show_image E (media E ! i) w2))) \<or>
      (ext_of (media E ! i) \<in> VID_EXTS \<and>
       show_item E i w =
         (case stop_running E (enter_show i w) of
            Inl e \<Rightarrow> Inl e
          | Inr w2 \<Rightarrow> Inr (show_video E (media E ! i) w2)))"
  proof (cases "ext_of (media E ! i) \<in> IMG_EXTS")
    case True
    then show ?thesis
      by (intro disjI1 conjI) (simp_all only: su if_True)
  next
    case False
    have "show_item E i w =
         (case stop_running E (enter_show i w) of
            Inl e \<Rightarrow> Inl e
          | Inr w2 \<Rightarrow> Inr (show_video E (media E ! i) w2))"
      using False by (simp only: su if_False)
    with v [OF False] show ?thesis
      by (intro disjI2 conjI)
  qed
next
  assume "lower a = lower b"
  then have "ext_of a = ext_of b"
    by (rule ext_of_case_insensitive)
  then show "ext_of a = ext_of b" and "supported a = supported b"
    by (simp_all add: supported_def)
qed

theorem C10_classification_is_binary_witness:
  "''IMG1.PNG'' \<in> set [''IMG1.PNG'', ''clip1.MP4'', ''notes.txt''] \<and>
   ext_of ''IMG1.PNG'' \<in> IMG_EXTS \<union> VID_EXTS \<and>
   path_join MEDIA_DIR ''IMG1.PNG'' \<in>
     set (load_media_list [''IMG1.PNG'', ''clip1.MP4'', ''notes.txt'']) \<and>
   ext_of (path_join MEDIA_DIR ''IMG1.PNG'') \<notin> VID_EXTS \<and>
   media demo_env =
     load_media_list [''img2.png'', ''notes.txt'', ''clip1.mp4'', ''img1.png''] \<and>
   0 < length (media demo_env) \<and>
   ext_of (media demo_env ! 0) \<in> VID_EXTS \<and>
   show_item demo_env 0 (initial 0) =
     (case stop_running demo_env (enter_show 0 (initial 0)) of
        Inl e \<Rightarrow> Inl e
      | Inr w2 \<Rightarrow> Inr (show_video demo_env (media demo_env ! 0) w2)) \<and>
   lower ''IMG1.PNG'' = lower ''img1.png'' \<and>
   ext_of ''IMG1.PNG'' = ext_of ''img1.png''"
proof -
  let ?l = "[''IMG1.PNG'', ''clip1.MP4'', ''notes.txt'']"
  let ?d = "[''img2.png'', ''notes.txt'', ''clip1.mp4'', ''img1.png'']"
  have m: "''IMG1.PNG'' \<in> set ?l"
    by simp
  have e: "ext_of ''IMG1.PNG'' \<in> IMG_EXTS \<union> VID_EXTS"
    by code_simp
  have i: "ext_of (path_join MEDIA_DIR ''IMG1.PNG'') \<in> IMG_EXTS"
    by code_simp
  have d: "media demo_env = load_media_list ?d \<and> 0 < length (media demo_env)"
    by code_simp
  have n: "ext_of (media demo_env ! 0) \<notin> IMG_EXTS"
    by code_simp
  have l: "lower ''IMG1.PNG'' = lower ''img1.png''"
    by code_simp
  note c1 = C10_classification_is_binary [where f = "''IMG1.PNG''" and listing = ?l
      and p = "path_join MEDIA_DIR ''IMG1.PNG''"]
  note c2 = C10_classification_is_binary [where E = demo_env and listing = ?d and i = 0
      and w = "initial 0" and a = "''IMG1.PNG''" and b = "''img1.png''"]
  have 1: "path_join MEDIA_DIR ''IMG1.PNG'' \<in> set (load_media_list ?l)"
    using c1 m e by blast
  have 2: "ext_of (path_join MEDIA_DIR ''IMG1.PNG'') \<notin> VID_EXTS"
    using c1 1 i by blast
  have 3: "ext_of (media demo_env ! 0) \<in> VID_EXTS \<and>
     show_item demo_env 0 (initial 0) =
       (case stop_running demo_env (enter_show 0 (initial 0)) of
          Inl e \<Rightarrow> Inl e
        | Inr w2 \<Rightarrow> Inr (show_video demo_env (media demo_env ! 0) w2))"
    using c2 d n by blast
  have 4: "ext_of ''IMG1.PNG'' = ext_of ''img1.png''"
    using c2 l by blast
  show ?thesis
    using m e 1 2 d 3 l 4 by blast
qed

end
